theory Spec2Isabelle
  imports Main "HOL-Library.Char_ord" "HOL-Library.List_Lexorder"
begin

section \<open>The task-graph engine of caf2 (src/caf2/caf.py)\<close>

text \<open>
  The engine is a graph of mutable future objects. Objects live in a heap (a list of
  records, the address of an object being its index), the session is part of the same
  state, and every method of the source is a function from a state to a result and a
  state. An exception is a value \<open>Inl e\<close>; the state at the moment of the raise is returned
  with it, since the mutations done before a raise stay visible in Python.
\<close>

subsection \<open>Values\<close>

type_synonym addr = nat
type_synonym Hash = string

text \<open>
  Python values that rules take and return. A string is a list of code points below 256.
  Floats are left out. The keys of a dict are strings; a dict is the list of its items in
  insertion order. \<open>PFut a\<close> is a reference to the future object at address \<open>a\<close>.
\<close>

datatype pyval =
    PNone
  | PBool bool
  | PInt int
  | PStr string
  | PList "pyval list"
  | PTuple "pyval list"
  | PDict "(string \<times> pyval) list"
  | PFut addr

text \<open>A subscript \<open>obj[key]\<close>: the keys of an Indexor are integers or strings.\<close>

datatype pykey = KInt int | KStr string

text \<open>
  The exceptions of the source (class CafError and its subclasses), the built-in ones its
  statements raise, and \<open>OutOfFuel\<close>, which is no exception: it marks a run of a
  fuel-bounded function of this theory that was cut before the source would have returned.
\<close>

datatype error =
    FutureNotDone
  | TaskHasNotRun
  | TaskIsDone
  | NoActiveSession
  | ArgNotInSession
  | AssertionError
  | KeyError
  | IndexError
  | TypeError
  | JSONDecodeError
  | OutOfFuel

subsection \<open>JSON text: json.dumps and json.loads of the standard library\<close>

text \<open>
  The standard encoder and decoder work on Python values; here they are split in two
  steps, with the JSON document as a tree in between: the tree is written to and read
  from text in this subsection, and Python values are turned into and made from trees
  further down. Numbers are integers (a number with a fraction or an exponent is
  rejected by the reader).
\<close>

datatype json =
    JNull
  | JBool bool
  | JInt int
  | JStr string
  | JArr "json list"
  | JObj "(string \<times> json) list"

text \<open>\<open>str\<close> of an integer.\<close>

definition digit_char :: "nat \<Rightarrow> char" where
  "digit_char d = char_of (48 + d)"

fun str_nat :: "nat \<Rightarrow> string" where
  "str_nat n = (if n < 10 then [digit_char n] else str_nat (n div 10) @ [digit_char (n mod 10)])"

declare str_nat.simps [simp del]

definition str_int :: "int \<Rightarrow> string" where
  "str_int i = (if i < 0 then CHR ''-'' # str_nat (nat (- i)) else str_nat (nat i))"

text \<open>\<open>sep.join(xs)\<close>.\<close>

fun join :: "string \<Rightarrow> string list \<Rightarrow> string" where
  "join sep [] = []"
| "join sep [x] = x"
| "join sep (x # y # ys) = x @ sep @ join sep (y # ys)"

text \<open>
  Strings are written with \<open>ensure_ascii\<close>: every character outside the range from the
  space to the tilde is escaped, the quote and the backslash too.
\<close>

definition hex_char :: "nat \<Rightarrow> char" where
  "hex_char d = (if d < 10 then char_of (48 + d) else char_of (87 + d))"

definition escape_char :: "char \<Rightarrow> string" where
  "escape_char c =
     (if c = CHR 0x5C then [CHR 0x5C, CHR 0x5C]
      else if c = CHR 0x22 then [CHR 0x5C, CHR 0x22]
      else if c = CHR 0x08 then [CHR 0x5C, CHR ''b'']
      else if c = CHR 0x0C then [CHR 0x5C, CHR ''f'']
      else if c = CHR 0x0A then [CHR 0x5C, CHR ''n'']
      else if c = CHR 0x0D then [CHR 0x5C, CHR ''r'']
      else if c = CHR 0x09 then [CHR 0x5C, CHR ''t'']
      else if (of_char c :: nat) < 32 \<or> 126 < (of_char c :: nat)
        then [CHR 0x5C, CHR ''u'', CHR ''0'', CHR ''0'',
              hex_char (of_char c div 16), hex_char (of_char c mod 16)]
      else [c])"

definition encode_basestring_ascii :: "string \<Rightarrow> string" where
  "encode_basestring_ascii s = CHR 0x22 # concat (map escape_char s) @ [CHR 0x22]"

text \<open>
  The writer with the separators json.dumps uses when none are given and \<open>indent\<close> is
  None: a comma and a space between items, a colon and a space after a key.
\<close>

fun dumps :: "json \<Rightarrow> string" where
  "dumps JNull = ''null''"
| "dumps (JBool b) = (if b then ''true'' else ''false'')"
| "dumps (JInt i) = str_int i"
| "dumps (JStr s) = encode_basestring_ascii s"
| "dumps (JArr xs) = ''['' @ join '', '' (map dumps xs) @ '']''"
| "dumps (JObj kvs) =
     ''{'' @ join '', '' (map (\<lambda>(k, v). encode_basestring_ascii k @ '': '' @ dumps v) kvs) @ ''}''"

text \<open>
  The reader. Whitespace between tokens is skipped; a string ends at the first quote
  that is not escaped and may not hold a control character; \<open>\u\<close> escapes are read for
  code points below 256. The recursion over nested arrays and objects is bounded by a
  counter; \<open>loads\<close> starts it at twice the length of the text, which no nesting in a
  text of that length uses up, and wants nothing but whitespace after the value.
\<close>

definition is_ws :: "char \<Rightarrow> bool" where
  "is_ws c = (c = CHR '' '' \<or> c = CHR 0x09 \<or> c = CHR 0x0A \<or> c = CHR 0x0D)"

definition skip_ws :: "string \<Rightarrow> string" where
  "skip_ws s = dropWhile is_ws s"

definition is_digit :: "char \<Rightarrow> bool" where
  "is_digit c = (48 \<le> (of_char c :: nat) \<and> (of_char c :: nat) \<le> 57)"

definition hex_val :: "char \<Rightarrow> nat option" where
  "hex_val c =
     (let n = (of_char c :: nat)
      in if 48 \<le> n \<and> n \<le> 57 then Some (n - 48)
         else if 97 \<le> n \<and> n \<le> 102 then Some (n - 87)
         else if 65 \<le> n \<and> n \<le> 70 then Some (n - 55)
         else None)"

definition unescape :: "char \<Rightarrow> char option" where
  "unescape e =
     (if e = CHR 0x22 then Some (CHR 0x22)
      else if e = CHR 0x5C then Some (CHR 0x5C)
      else if e = CHR ''/'' then Some (CHR ''/'')
      else if e = CHR ''b'' then Some (CHR 0x08)
      else if e = CHR ''f'' then Some (CHR 0x0C)
      else if e = CHR ''n'' then Some (CHR 0x0A)
      else if e = CHR ''r'' then Some (CHR 0x0D)
      else if e = CHR ''t'' then Some (CHR 0x09)
      else None)"

definition cons_char :: "char \<Rightarrow> (string \<times> string) option \<Rightarrow> (string \<times> string) option" where
  "cons_char c r = (case r of None \<Rightarrow> None | Some (s, rest) \<Rightarrow> Some (c # s, rest))"

fun scanstring :: "string \<Rightarrow> (string \<times> string) option" where
  "scanstring [] = None"
| "scanstring (c # cs) =
     (if c = CHR 0x22 then Some ([], cs)
      else if c = CHR 0x5C then
        (case cs of
           [] \<Rightarrow> None
         | e # r \<Rightarrow>
             if e = CHR ''u'' then
               (case r of
                  h1 # h2 # h3 # h4 # r' \<Rightarrow>
                    (case (hex_val h1, hex_val h2, hex_val h3, hex_val h4) of
                       (Some a, Some b, Some c', Some d) \<Rightarrow>
                         if a = 0 \<and> b = 0 then cons_char (char_of (16 * c' + d)) (scanstring r')
                         else None
                     | _ \<Rightarrow> None)
                | _ \<Rightarrow> None)
             else
               (case unescape e of
                  None \<Rightarrow> None
                | Some ch \<Rightarrow> cons_char ch (scanstring r)))
      else if (of_char c :: nat) < 32 then None
      else cons_char c (scanstring cs))"

definition nat_of_digits :: "string \<Rightarrow> nat" where
  "nat_of_digits ds = foldl (\<lambda>n c. 10 * n + (of_char c - 48)) 0 ds"

definition scan_number :: "string \<Rightarrow> (int \<times> string) option" where
  "scan_number s =
     (let neg = (case s of [] \<Rightarrow> False | c # r \<Rightarrow> c = CHR ''-'');
          r = (if neg then tl s else s);
          ds = (case r of [] \<Rightarrow> [] | d # r' \<Rightarrow> if d = CHR ''0'' then [d] else takeWhile is_digit r);
          rest = drop (length ds) r
      in if ds = [] then None
         else if rest \<noteq> [] \<and> (hd rest = CHR ''.'' \<or> hd rest = CHR ''e'' \<or> hd rest = CHR ''E'') then None
         else Some (if neg then - int (nat_of_digits ds) else int (nat_of_digits ds), rest))"

definition strip_prefix :: "string \<Rightarrow> string \<Rightarrow> string option" where
  "strip_prefix p s = (if take (length p) s = p then Some (drop (length p) s) else None)"

fun parse_value :: "nat \<Rightarrow> string \<Rightarrow> (json \<times> string) option"
  and parse_elems :: "nat \<Rightarrow> string \<Rightarrow> (json list \<times> string) option"
  and parse_members :: "nat \<Rightarrow> string \<Rightarrow> ((string \<times> json) list \<times> string) option" where
  "parse_value 0 s = None"
| "parse_value (Suc n) s =
     (case s of
        [] \<Rightarrow> None
      | c # cs \<Rightarrow>
          if c = CHR 0x22 then
            (case scanstring cs of None \<Rightarrow> None | Some (str, r) \<Rightarrow> Some (JStr str, r))
          else if c = CHR ''{'' then
            (case skip_ws cs of
               [] \<Rightarrow> None
             | c' # r \<Rightarrow>
                 if c' = CHR ''}'' then Some (JObj [], r)
                 else (case parse_members n (c' # r) of
                         None \<Rightarrow> None
                       | Some (kvs, r') \<Rightarrow> Some (JObj kvs, r')))
          else if c = CHR ''['' then
            (case skip_ws cs of
               [] \<Rightarrow> None
             | c' # r \<Rightarrow>
                 if c' = CHR '']'' then Some (JArr [], r)
                 else (case parse_elems n (c' # r) of
                         None \<Rightarrow> None
                       | Some (vs, r') \<Rightarrow> Some (JArr vs, r')))
          else if c = CHR ''n'' then
            (case strip_prefix ''null'' s of None \<Rightarrow> None | Some r \<Rightarrow> Some (JNull, r))
          else if c = CHR ''t'' then
            (case strip_prefix ''true'' s of None \<Rightarrow> None | Some r \<Rightarrow> Some (JBool True, r))
          else if c = CHR ''f'' then
            (case strip_prefix ''false'' s of None \<Rightarrow> None | Some r \<Rightarrow> Some (JBool False, r))
          else
            (case scan_number s of None \<Rightarrow> None | Some (i, r) \<Rightarrow> Some (JInt i, r)))"
| "parse_elems 0 s = None"
| "parse_elems (Suc n) s =
     (case parse_value n s of
        None \<Rightarrow> None
      | Some (v, r) \<Rightarrow>
          (case skip_ws r of
             [] \<Rightarrow> None
           | c # r' \<Rightarrow>
               if c = CHR '','' then
                 (case parse_elems n (skip_ws r') of
                    None \<Rightarrow> None
                  | Some (vs, r'') \<Rightarrow> Some (v # vs, r''))
               else if c = CHR '']'' then Some ([v], r')
               else None))"
| "parse_members 0 s = None"
| "parse_members (Suc n) s =
     (case s of
        [] \<Rightarrow> None
      | q # cs \<Rightarrow>
          if q \<noteq> CHR 0x22 then None
          else
            (case scanstring cs of
               None \<Rightarrow> None
             | Some (k, r) \<Rightarrow>
                 (case skip_ws r of
                    [] \<Rightarrow> None
                  | c # r1 \<Rightarrow>
                      if c \<noteq> CHR '':'' then None
                      else
                        (case parse_value n (skip_ws r1) of
                           None \<Rightarrow> None
                         | Some (v, r2) \<Rightarrow>
                             (case skip_ws r2 of
                                [] \<Rightarrow> None
                              | c' # r3 \<Rightarrow>
                                  if c' = CHR '','' then
                                    (case parse_members n (skip_ws r3) of
                                       None \<Rightarrow> None
                                     | Some (kvs, r4) \<Rightarrow> Some ((k, v) # kvs, r4))
                                  else if c' = CHR ''}'' then Some ([(k, v)], r3)
                                  else None)))))"

definition loads :: "string \<Rightarrow> json option" where
  "loads s =
     (case parse_value (2 * length s + 2) (skip_ws s) of
        None \<Rightarrow> None
      | Some (v, r) \<Rightarrow> if skip_ws r = [] then Some v else None)"

subsection \<open>class State(Enum)\<close>

text \<open>
  The class body of State, name by name. Python's Enum makes a member of the first name
  that carries a value; a later name with the same value is an alias: it denotes the
  member made before. A member is the pair of its canonical name and its value, and
  \<open>is\<close> on members is equality of these pairs.
\<close>

type_synonym State = "string \<times> int"

definition State_body :: "(string \<times> int) list" where
  "State_body =
     [(''UNREGISTERED'', -1),
      (''PENDING'', 0),
      (''READY'', 1),
      (''RUNNING'', 2),
      (''HAS_RUN'', 3),
      (''DONE'', 1)]"

definition enum_member :: "(string \<times> int) list \<Rightarrow> string \<Rightarrow> State option" where
  "enum_member body name =
     (case map_of body name of
        None \<Rightarrow> None
      | Some v \<Rightarrow> find (\<lambda>(n, v'). v' = v) body)"

definition State_UNREGISTERED :: State where
  "State_UNREGISTERED = the (enum_member State_body ''UNREGISTERED'')"

definition State_PENDING :: State where
  "State_PENDING = the (enum_member State_body ''PENDING'')"

definition State_READY :: State where
  "State_READY = the (enum_member State_body ''READY'')"

definition State_RUNNING :: State where
  "State_RUNNING = the (enum_member State_body ''RUNNING'')"

definition State_HAS_RUN :: State where
  "State_HAS_RUN = the (enum_member State_body ''HAS_RUN'')"

definition State_DONE :: State where
  "State_DONE = the (enum_member State_body ''DONE'')"

subsection \<open>Future objects and the state\<close>

text \<open>
  The closures that the source installs as callbacks:
  \<open>TemplateSetResult\<close> is \<open>lambda tmpl: tmpl.set_result(tmpl.substitute())\<close>,
  \<open>IndexorSetResult\<close> is \<open>lambda idx: idx.set_result(idx.resolve())\<close>,
  \<open>Schedule\<close> is the function schedule of Session.eval, and
  \<open>SetTaskResult t\<close> is \<open>lambda fut: task.set_result(fut.result())\<close> of run_task with
  \<open>task\<close> bound to the object at \<open>t\<close>.
\<close>

datatype callback = TemplateSetResult | IndexorSetResult | Schedule | SetTaskResult addr

text \<open>A function is known to the engine by its module and qualified name.\<close>

type_synonym func = "string \<times> string"

text \<open>
  The fields that the three subclasses of HashedFuture add to Future (the engine makes
  no object of another class of futures). The list
  \<open>children\<close> of a task is a list object of its own (it is handed to Session.record and
  filled through the session's tape), so the task holds its index in the store of lists.
\<close>

datatype variant =
    Template (jsonstr: string) (futures: "(Hash \<times> addr) list") (tmpl_hashid: Hash)
  | Indexor (idx_task: addr) (idx_keys: "pykey list") (idx_hashid: Hash)
  | Task (task_func: func) (task_args: "addr list") (task_hashid: Hash) (task_children: nat)
      (task_future_result: "addr option") (task_default: "pyval option")
      (task_label: "string option")

text \<open>
  The fields of Future. The two sets of futures are lists without repetition in the order
  of insertion; Python iterates a set in an order of its own, so nothing proved below
  depends on the order. \<open>result = None\<close> is the token \<open>_NoResult\<close>.
\<close>

record future =
  pending :: "addr list"
  children :: "addr list"
  result :: "pyval option"
  done_callbacks :: "callback list"
  ready_callbacks :: "callback list"
  registered :: bool
  variant :: variant

text \<open>
  The state: the heap of futures, the store of list objects, the two fields of the one
  Session, and the queue of the running Session.eval (the closure \<open>schedule\<close> appends to
  it from inside callbacks).
\<close>

record state =
  heap :: "future list"
  lists :: "addr list list"
  tasks :: "Hash \<rightharpoonup> addr"
  task_tape :: "nat option"
  queue :: "addr list"

type_synonym 'a action = "state \<Rightarrow> (error + 'a) \<times> state"

definition ret :: "'a \<Rightarrow> 'a action" where
  "ret x s = (Inr x, s)"

definition raise :: "error \<Rightarrow> 'a action" where
  "raise e s = (Inl e, s)"

definition bind :: "'a action \<Rightarrow> ('a \<Rightarrow> 'b action) \<Rightarrow> 'b action" where
  "bind m f s = (case m s of (Inl e, s') \<Rightarrow> (Inl e, s') | (Inr x, s') \<Rightarrow> f x s')"

text \<open>\<open>for x in xs: body(x)\<close>, left at the first exception.\<close>

fun for_each :: "'a list \<Rightarrow> ('a \<Rightarrow> unit action) \<Rightarrow> unit action" where
  "for_each [] body s = (Inr (), s)"
| "for_each (x # xs) body s =
     (case body x s of (Inl e, s') \<Rightarrow> (Inl e, s') | (Inr u, s') \<Rightarrow> for_each xs body s')"

definition upd :: "addr \<Rightarrow> (future \<Rightarrow> future) \<Rightarrow> state \<Rightarrow> state" where
  "upd a g s = s\<lparr>heap := (heap s)[a := g (heap s ! a)]\<rparr>"

subsection \<open>hash_text\<close>

text \<open>
  \<open>str.encode()\<close>: UTF-8 of a string of code points below 256. The digest itself,
  \<open>hashlib.sha1(text).hexdigest()\<close>, belongs to the standard library; it is a parameter
  \<open>sha\<close> of everything that hashes, from bytes to the text of the digest. Both callers
  in the source pass a str.
\<close>

definition utf8 :: "string \<Rightarrow> string" where
  "utf8 text =
     concat (map (\<lambda>c. if (of_char c :: nat) < 128 then [c]
                        else [char_of (192 + (of_char c :: nat) div 64),
                              char_of (128 + (of_char c :: nat) mod 64)]) text)"

definition hash_text :: "(string \<Rightarrow> string) \<Rightarrow> string \<Rightarrow> Hash" where
  "hash_text sha text = sha (utf8 text)"

subsection \<open>Reading the heap\<close>

text \<open>The property \<open>hashid\<close> of the three classes of hashed futures.\<close>

definition hashid :: "future \<Rightarrow> Hash" where
  "hashid f =
     (case variant f of
        Template js fs h \<Rightarrow> h
      | Indexor t ks h \<Rightarrow> h
      | Task fn args h ch fr d l \<Rightarrow> h)"

definition is_Task :: "future \<Rightarrow> bool" where
  "is_Task f = (case variant f of Task fn args h ch fr d l \<Rightarrow> True | _ \<Rightarrow> False)"

text \<open>\<open>s.add(x)\<close> on a set and \<open>d[k] = v\<close> on a dict, both kept as lists.\<close>

definition set_add :: "'a list \<Rightarrow> 'a \<Rightarrow> 'a list" where
  "set_add xs x = (if x \<in> set xs then xs else xs @ [x])"

definition dict_set :: "('k \<times> 'v) list \<Rightarrow> 'k \<Rightarrow> 'v \<Rightarrow> ('k \<times> 'v) list" where
  "dict_set d k v =
     (if k \<in> set (map fst d) then map (\<lambda>(k', v'). if k' = k then (k', v) else (k', v')) d
      else d @ [(k, v)])"

text \<open>The first exception of a list of outcomes, or all the values.\<close>

fun sequence :: "(error + 'a) list \<Rightarrow> error + 'a list" where
  "sequence [] = Inr []"
| "sequence (Inl e # rs) = Inl e"
| "sequence (Inr x # rs) = (case sequence rs of Inl e \<Rightarrow> Inl e | Inr xs \<Rightarrow> Inr (x # xs))"

text \<open>
  \<open>obj[key]\<close> on a value: a list, a tuple and a string take an integer (a negative one
  counts from the end), a dict takes a key. A result never holds a future handle
  (run_task sets a result only when from_object found no future in it, and from_object
  raises on a Template), so the subscript of a handle is not modelled and is marked by
  TypeError.
\<close>

definition index_list :: "'a list \<Rightarrow> int \<Rightarrow> error + 'a" where
  "index_list xs i =
     (if 0 \<le> i \<and> i < int (length xs) then Inr (xs ! nat i)
      else if i < 0 \<and> - i \<le> int (length xs) then Inr (xs ! nat (int (length xs) + i))
      else Inl IndexError)"

fun getitem :: "pyval \<Rightarrow> pykey \<Rightarrow> error + pyval" where
  "getitem (PList xs) (KInt i) = index_list xs i"
| "getitem (PTuple xs) (KInt i) = index_list xs i"
| "getitem (PStr cs) (KInt i) = (case index_list cs i of Inl e \<Rightarrow> Inl e | Inr c \<Rightarrow> Inr (PStr [c]))"
| "getitem (PDict d) (KStr k) = (case map_of d k of None \<Rightarrow> Inl KeyError | Some v \<Rightarrow> Inr v)"
| "getitem (PDict d) (KInt i) = Inl KeyError"
| "getitem v k = Inl TypeError"

subsection \<open>Values to JSON and back: ClassJSONEncoder and ClassJSONDecoder\<close>

text \<open>
  Modelled from the spec: the module json_utils with ClassJSONEncoder and
  ClassJSONDecoder is not among the sources. By the spec (4.1 and 6) and the test
  test_json_utils, the encoder is the standard JSON encoder with one addition: a value
  whose class is registered is added to the tape and written as the object
  \<open>{class name: payload}\<close>, the payload being what the class's encoder returns; the
  decoder is the standard decoder with the inverse addition: an object tagged with a
  registered class name is replaced by what the class's decoder makes of the payload.

  From the standard encoder: a tuple is written as an array like a list, the items of a
  dict are written in the order of their keys under \<open>sort_keys\<close>, and a value of no known
  and no registered class raises TypeError. In Template.from_object the registered
  classes are Task and Indexor, each with the payload \<open>{'hashid': fut.hashid}\<close>.
\<close>

fun to_json :: "state \<Rightarrow> pyval \<Rightarrow> error + json \<times> addr list" where
  "to_json s PNone = Inr (JNull, [])"
| "to_json s (PBool b) = Inr (JBool b, [])"
| "to_json s (PInt i) = Inr (JInt i, [])"
| "to_json s (PStr cs) = Inr (JStr cs, [])"
| "to_json s (PList xs) =
     (case sequence (map (to_json s) xs) of
        Inl e \<Rightarrow> Inl e
      | Inr rs \<Rightarrow> Inr (JArr (map fst rs), concat (map snd rs)))"
| "to_json s (PTuple xs) =
     (case sequence (map (to_json s) xs) of
        Inl e \<Rightarrow> Inl e
      | Inr rs \<Rightarrow> Inr (JArr (map fst rs), concat (map snd rs)))"
| "to_json s (PDict kvs) =
     (case sequence (map (\<lambda>(k, v). case to_json s v of Inl e \<Rightarrow> Inl e | Inr (j, t) \<Rightarrow> Inr (k, j, t)) kvs) of
        Inl e \<Rightarrow> Inl e
      | Inr rs \<Rightarrow>
          Inr (JObj (map (\<lambda>(k, j, t). (k, j)) (sort_key fst rs)),
               concat (map (\<lambda>(k, j, t). t) (sort_key fst rs))))"
| "to_json s (PFut a) =
     (case variant (heap s ! a) of
        Task fn args h ch fr d l \<Rightarrow> Inr (JObj [(''Task'', JObj [(''hashid'', JStr h)])], [a])
      | Indexor t ks h \<Rightarrow> Inr (JObj [(''Indexor'', JObj [(''hashid'', JStr h)])], [a])
      | Template js fs h \<Rightarrow> Inl TypeError)"

text \<open>
  The decoder, innermost objects first. The members of an object are put into a dict one
  by one (a repeated key keeps its place and takes the last value); a dict of one item
  whose key is a registered class name is handed to that class's decoder.
\<close>

fun from_json :: "(string \<times> (pyval \<Rightarrow> error + pyval)) list \<Rightarrow> json \<Rightarrow> error + pyval" where
  "from_json classes JNull = Inr PNone"
| "from_json classes (JBool b) = Inr (PBool b)"
| "from_json classes (JInt i) = Inr (PInt i)"
| "from_json classes (JStr cs) = Inr (PStr cs)"
| "from_json classes (JArr xs) =
     (case sequence (map (from_json classes) xs) of Inl e \<Rightarrow> Inl e | Inr vs \<Rightarrow> Inr (PList vs))"
| "from_json classes (JObj kvs) =
     (case sequence (map (\<lambda>(k, j). case from_json classes j of Inl e \<Rightarrow> Inl e | Inr v \<Rightarrow> Inr (k, v)) kvs) of
        Inl e \<Rightarrow> Inl e
      | Inr items \<Rightarrow>
          (let dct = foldl (\<lambda>d (k, v). dict_set d k v) [] items
           in case dct of
                [(k, payload)] \<Rightarrow>
                  (case map_of classes k of
                     None \<Rightarrow> Inr (PDict dct)
                   | Some decoder \<Rightarrow> decoder payload)
              | _ \<Rightarrow> Inr (PDict dct)))"

subsection \<open>Future.result, default_result and Template.substitute\<close>

text \<open>
  \<open>result(default)\<close> returns the result when it is set; without a default it raises
  FutureNotDone; with one it calls \<open>default_result\<close>, which Template overrides by
  \<open>substitute\<close> and Task by a call to the \<open>default_result\<close> of its chained future. These
  calls follow references through the heap, so their depth is bounded by a counter.
  None of them changes the state. The parameter \<open>dflt\<close> is the argument \<open>default\<close>.

  The decoder given to json.loads for both classes is
  \<open>lambda dct: self._futures[dct['hashid']].result(default)\<close>.
\<close>

fun Future_result :: "nat \<Rightarrow> state \<Rightarrow> addr \<Rightarrow> pyval option \<Rightarrow> error + pyval"
  and default_result :: "nat \<Rightarrow> state \<Rightarrow> addr \<Rightarrow> pyval \<Rightarrow> error + pyval"
  and Template_substitute :: "nat \<Rightarrow> state \<Rightarrow> addr \<Rightarrow> pyval option \<Rightarrow> error + pyval" where
  "Future_result n s a dflt =
     (case result (heap s ! a) of
        Some v \<Rightarrow> Inr v
      | None \<Rightarrow>
          (case dflt of
             None \<Rightarrow> Inl FutureNotDone
           | Some d \<Rightarrow> default_result n s a d))"
| "default_result 0 s a d = Inl OutOfFuel"
| "default_result (Suc n) s a d =
     (case variant (heap s ! a) of
        Template js fs h \<Rightarrow> Template_substitute n s a (Some d)
      | Indexor t ks h \<Rightarrow> Inr d
      | Task fn args h ch fr df l \<Rightarrow>
          (case fr of None \<Rightarrow> Inr d | Some r \<Rightarrow> default_result n s r d))"
| "Template_substitute n s a dflt =
     (case loads (jsonstr (variant (heap s ! a))) of
        None \<Rightarrow> Inl JSONDecodeError
      | Some j \<Rightarrow>
          (let decoder = (\<lambda>dct.
                 case getitem dct (KStr ''hashid'') of
                   Inl e \<Rightarrow> Inl e
                 | Inr (PStr h) \<Rightarrow>
                     (case map_of (futures (variant (heap s ! a))) h of
                        None \<Rightarrow> Inl KeyError
                      | Some b \<Rightarrow> Future_result n s b dflt)
                 | Inr (PList xs) \<Rightarrow> Inl TypeError
                 | Inr (PDict d) \<Rightarrow> Inl TypeError
                 | Inr v \<Rightarrow> Inl KeyError)
           in from_json [(''Task'', decoder), (''Indexor'', decoder)] j))"

text \<open>Indexor.resolve: the result of the task, subscripted key by key.\<close>

fun walk :: "pyval \<Rightarrow> pykey list \<Rightarrow> error + pyval" where
  "walk obj [] = Inr obj"
| "walk obj (key # keys) = (case getitem obj key of Inl e \<Rightarrow> Inl e | Inr v \<Rightarrow> walk v keys)"

definition Indexor_resolve :: "state \<Rightarrow> addr \<Rightarrow> error + pyval" where
  "Indexor_resolve s a =
     (case Future_result 0 s (idx_task (variant (heap s ! a))) None of
        Inl e \<Rightarrow> Inl e
      | Inr obj \<Rightarrow> walk obj (idx_keys (variant (heap s ! a))))"

subsection \<open>class Future\<close>

definition Future_ready :: "future \<Rightarrow> bool" where
  "Future_ready f = (pending f = [])"

definition Future_done :: "future \<Rightarrow> bool" where
  "Future_done f = (result f \<noteq> None)"

definition Future_state :: "future \<Rightarrow> State" where
  "Future_state f =
     (if Future_done f then State_DONE
      else if Future_ready f then State_READY
      else if registered f then State_PENDING
      else State_UNREGISTERED)"

text \<open>Task.has_run and the property Task.state, which overrides Future.state.\<close>

definition Task_has_run :: "future \<Rightarrow> bool" where
  "Task_has_run f = (Future_done f \<or> task_future_result (variant f) \<noteq> None)"

definition Task_state :: "future \<Rightarrow> State" where
  "Task_state f =
     (let state = Future_state f
      in if state = State_READY \<and> Task_has_run f then State_HAS_RUN else state)"

text \<open>The property \<open>state\<close> as Python dispatches it on the class of the object.\<close>

definition state_of :: "future \<Rightarrow> State" where
  "state_of f = (case variant f of Task fn args h ch fr d l \<Rightarrow> Task_state f | _ \<Rightarrow> Future_state f)"

text \<open>
  \<open>Future.__init__\<close> with the fields of the subclass: the new object takes the next
  address; its pending set holds the parents that are not done.
\<close>

definition Future_init :: "addr list \<Rightarrow> variant \<Rightarrow> addr action" where
  "Future_init parents v s =
     (Inr (length (heap s)),
      s\<lparr>heap := heap s @
         [\<lparr>pending = foldl set_add [] (filter (\<lambda>p. \<not> Future_done (heap s ! p)) parents),
           children = [],
           result = None,
           done_callbacks = [],
           ready_callbacks = [],
           registered = False,
           variant = v\<rparr>]\<rparr>)"

definition add_child :: "addr \<Rightarrow> addr \<Rightarrow> state \<Rightarrow> state" where
  "add_child p c s = upd p (\<lambda>f. f\<lparr>children := set_add (children f) c\<rparr>) s"

definition Future_register :: "addr \<Rightarrow> bool action" where
  "Future_register a s =
     (if \<not> registered (heap s ! a) then
        (Inr True, fold (\<lambda>p. add_child p a) (pending (heap s ! a))
                     (upd a (\<lambda>f. f\<lparr>registered := True\<rparr>) s))
      else (Inr False, s))"

text \<open>
  \<open>fut.register()\<close> as dispatched on the class: Template.register goes on to register
  the pending futures of the template, the other classes take Future.register
  (HashedFuture.register adds a log line only).
\<close>

fun register :: "nat \<Rightarrow> addr \<Rightarrow> bool action" where
  "register 0 a s = (Inl OutOfFuel, s)"
| "register (Suc n) a s =
     (case variant (heap s ! a) of
        Template js fs h \<Rightarrow>
          (case Future_register a s of
             (Inr True, s1) \<Rightarrow>
               (case for_each (pending (heap s1 ! a)) (\<lambda>p. bind (register n p) (\<lambda>b. ret ())) s1 of
                  (Inl e, s2) \<Rightarrow> (Inl e, s2)
                | (Inr u, s2) \<Rightarrow> (Inr True, s2))
           | r \<Rightarrow> r)
      | _ \<Rightarrow> Future_register a s)"

text \<open>
  Modelled from the spec: HashedDeque of the module collections is not among the
  sources; by the spec (4.6) it is a first-in first-out queue with a membership test.
  \<open>schedule\<close> is the closure of Session.eval over that queue.
\<close>

definition schedule :: "addr \<Rightarrow> unit action" where
  "schedule task s =
     (if task \<notin> set (queue s) then (Inr (), s\<lparr>queue := queue s @ [task]\<rparr>) else (Inr (), s))"

text \<open>
  \<open>set_result\<close>, \<open>parent_done\<close> and the call of a callback call one another through the
  heap: a result set on a future is passed to its children, whose callbacks set further
  results. The depth of these calls is bounded by a counter. \<open>set_result\<close> is dispatched:
  on a task it is Task.set_result, which clears \<open>_future_result\<close> after
  Future.set_result has returned.
\<close>

fun set_result :: "nat \<Rightarrow> addr \<Rightarrow> pyval \<Rightarrow> unit action"
  and parent_done :: "nat \<Rightarrow> addr \<Rightarrow> addr \<Rightarrow> unit action"
  and call :: "nat \<Rightarrow> callback \<Rightarrow> addr \<Rightarrow> unit action" where
  "set_result 0 a v s = (Inl OutOfFuel, s)"
| "set_result (Suc n) a v s =
     (if \<not> Future_ready (heap s ! a) then (Inl AssertionError, s)
      else if result (heap s ! a) \<noteq> None then (Inl AssertionError, s)
      else
        (case for_each (children (heap s ! a)) (\<lambda>c. parent_done n c a)
                (upd a (\<lambda>f. f\<lparr>result := Some v\<rparr>) s) of
           (Inl e, s1) \<Rightarrow> (Inl e, s1)
         | (Inr u, s1) \<Rightarrow>
             (case for_each (done_callbacks (heap s1 ! a)) (\<lambda>callback. call n callback a) s1 of
                (Inl e, s2) \<Rightarrow> (Inl e, s2)
              | (Inr u', s2) \<Rightarrow>
                  (case variant (heap s2 ! a) of
                     Task fn args h ch fr d l \<Rightarrow>
                       (Inr (), upd a (\<lambda>f. f\<lparr>variant := Task fn args h ch None d l\<rparr>) s2)
                   | _ \<Rightarrow> (Inr (), s2)))))"
| "parent_done 0 c a s = (Inl OutOfFuel, s)"
| "parent_done (Suc n) c a s =
     (if a \<notin> set (pending (heap s ! c)) then (Inl KeyError, s)
      else
        (let s1 = upd c (\<lambda>f. f\<lparr>pending := remove1 a (pending f)\<rparr>) s
         in if Future_ready (heap s1 ! c)
            then for_each (ready_callbacks (heap s1 ! c)) (\<lambda>callback. call n callback c) s1
            else (Inr (), s1)))"
| "call 0 callback a s = (Inl OutOfFuel, s)"
| "call (Suc n) TemplateSetResult a s =
     (case Template_substitute n s a None of
        Inl e \<Rightarrow> (Inl e, s)
      | Inr v \<Rightarrow> set_result n a v s)"
| "call (Suc n) IndexorSetResult a s =
     (case Indexor_resolve s a of
        Inl e \<Rightarrow> (Inl e, s)
      | Inr v \<Rightarrow> set_result n a v s)"
| "call (Suc n) Schedule a s = schedule a s"
| "call (Suc n) (SetTaskResult task) a s =
     (case Future_result n s a None of
        Inl e \<Rightarrow> (Inl e, s)
      | Inr v \<Rightarrow> set_result n task v s)"

definition add_ready_callback :: "nat \<Rightarrow> addr \<Rightarrow> callback \<Rightarrow> unit action" where
  "add_ready_callback n a callback s =
     (if Future_ready (heap s ! a) then call n callback a s
      else (Inr (), upd a (\<lambda>f. f\<lparr>ready_callbacks := ready_callbacks f @ [callback]\<rparr>) s))"

definition add_done_callback :: "addr \<Rightarrow> callback \<Rightarrow> unit action" where
  "add_done_callback a callback s =
     (if Future_done (heap s ! a) then (Inl AssertionError, s)
      else (Inr (), upd a (\<lambda>f. f\<lparr>done_callbacks := done_callbacks f @ [callback]\<rparr>) s))"

subsection \<open>class Template\<close>

definition Template_init :: "nat \<Rightarrow> (string \<Rightarrow> string) \<Rightarrow> string \<Rightarrow> addr list \<Rightarrow> addr action" where
  "Template_init n sha js futs s =
     bind (Future_init futs
             (Template js (foldl (\<lambda>d b. dict_set d (hashid (heap s ! b)) b) [] futs)
                (''{}'' @ hash_text sha js)))
       (\<lambda>a. bind (add_ready_callback n a TemplateSetResult) (\<lambda>u. ret a)) s"

definition Template_has_futures :: "future \<Rightarrow> bool" where
  "Template_has_futures f = (futures (variant f) \<noteq> [])"

definition is_future :: "pyval \<Rightarrow> bool" where
  "is_future obj = (case obj of PFut a \<Rightarrow> True | _ \<Rightarrow> False)"

definition Template_from_object :: "nat \<Rightarrow> (string \<Rightarrow> string) \<Rightarrow> pyval \<Rightarrow> addr action" where
  "Template_from_object n sha obj s =
     (if is_future obj then (Inl AssertionError, s)
      else
        (case to_json s obj of
           Inl e \<Rightarrow> (Inl e, s)
         | Inr (j, tape) \<Rightarrow> Template_init n sha (dumps j) (foldl set_add [] tape) s))"

subsection \<open>class Indexor\<close>




subsection \<open>class Task\<close>

definition get_fullname :: "func \<Rightarrow> string" where
  "get_fullname obj = fst obj @ '':'' @ snd obj"

text \<open>
  The property \<open>spec\<close>: json.dumps of a list of strings, which the standard encoder writes
  as the array of these strings (\<open>sort_keys\<close> has nothing to sort).
\<close>

definition Task_spec :: "state \<Rightarrow> func \<Rightarrow> addr list \<Rightarrow> string" where
  "Task_spec s fn args = dumps (JArr (map JStr (get_fullname fn # map (\<lambda>b. hashid (heap s ! b)) args)))"

text \<open>The tuple \<open>self._args\<close>: a future is taken as it is, another value is wrapped.\<close>

fun promote :: "nat \<Rightarrow> (string \<Rightarrow> string) \<Rightarrow> pyval list \<Rightarrow> addr list action" where
  "promote n sha [] s = (Inr [], s)"
| "promote n sha (arg # args) s =
     (case (case arg of PFut a \<Rightarrow> (Inr a, s) | _ \<Rightarrow> Template_from_object n sha arg s) of
        (Inl e, s1) \<Rightarrow> (Inl e, s1)
      | (Inr a, s1) \<Rightarrow>
          (case promote n sha args s1 of
             (Inl e, s2) \<Rightarrow> (Inl e, s2)
           | (Inr as, s2) \<Rightarrow> (Inr (a # as), s2)))"

definition Task_init ::
  "nat \<Rightarrow> (string \<Rightarrow> string) \<Rightarrow> func \<Rightarrow> pyval list \<Rightarrow> pyval option \<Rightarrow> string option \<Rightarrow> addr action" where
  "Task_init n sha fn args dflt label s =
     (case promote n sha args s of
        (Inl e, s1) \<Rightarrow> (Inl e, s1)
      | (Inr as, s1) \<Rightarrow>
          Future_init as
            (Task fn as (hash_text sha (Task_spec s1 fn as)) (length (lists s1)) None dflt label)
            (s1\<lparr>lists := lists s1 @ [[]]\<rparr>))"


definition Task_future_result :: "addr \<Rightarrow> addr action" where
  "Task_future_result a s =
     (if \<not> Task_has_run (heap s ! a) then (Inl TaskHasNotRun, s)
      else if Future_done (heap s ! a) then
        (if task_future_result (variant (heap s ! a)) = None then (Inl TaskIsDone, s)
         else (Inl AssertionError, s))
      else
        (case task_future_result (variant (heap s ! a)) of
           None \<Rightarrow> (Inl AssertionError, s)
         | Some r \<Rightarrow> (Inr r, s)))"

definition set_future_result :: "addr \<Rightarrow> addr \<Rightarrow> state \<Rightarrow> state" where
  "set_future_result a r s =
     upd a (\<lambda>f. case variant f of
                   Task fn args h ch fr d l \<Rightarrow> f\<lparr>variant := Task fn args h ch (Some r) d l\<rparr>
                 | _ \<Rightarrow> f) s"

subsection \<open>extract_tasks\<close>

text \<open>
  The loop of extract_tasks over its queue, with the sets \<open>visited\<close> and \<open>tasks\<close>. A
  future may enter the queue more than once before it is visited, so the number of
  rounds is not the number of futures; the rounds are counted down from \<open>n\<close>.
\<close>

fun extract_loop :: "nat \<Rightarrow> state \<Rightarrow> addr list \<Rightarrow> addr list \<Rightarrow> addr list \<Rightarrow> error + addr list" where
  "extract_loop n s [] visited ts = Inr ts"
| "extract_loop 0 s (f # q) visited ts = Inl OutOfFuel"
| "extract_loop (Suc n) s (f # q) visited ts =
     extract_loop n s
       (q @ filter (\<lambda>parent. parent \<notin> set (set_add visited f)) (pending (heap s ! f)))
       (set_add visited f)
       (if is_Task (heap s ! f) then set_add ts f else ts)"

definition extract_tasks :: "nat \<Rightarrow> state \<Rightarrow> addr \<Rightarrow> error + addr list" where
  "extract_tasks n s f = extract_loop n s [f] [] []"

subsection \<open>class Session\<close>

definition Session_contains :: "state \<Rightarrow> addr \<Rightarrow> bool" where
  "Session_contains s task = (tasks s (hashid (heap s ! task)) \<noteq> None)"

text \<open>The \<open>finally\<close> clause of create_task: the task goes on the tape if one is set.\<close>

definition tape_append :: "addr \<Rightarrow> state \<Rightarrow> state" where
  "tape_append task s =
     (case task_tape s of
        None \<Rightarrow> s
      | Some tp \<Rightarrow> s\<lparr>lists := (lists s)[tp := lists s ! tp @ [task]]\<rparr>)"

text \<open>The body of the loop \<open>for arg in task.args\<close> of create_task.\<close>

definition check_arg :: "nat \<Rightarrow> addr \<Rightarrow> unit action" where
  "check_arg n arg s =
     (case (if is_Task (heap s ! arg)
            then (if \<not> Session_contains s arg then Inl ArgNotInSession else Inr ())
            else (case extract_tasks n s arg of
                    Inl e \<Rightarrow> Inl e
                  | Inr ts \<Rightarrow>
                      if list_ex (\<lambda>arg_task. \<not> Session_contains s arg_task) ts
                      then Inl ArgNotInSession else Inr ())) of
        Inl e \<Rightarrow> (Inl e, s)
      | Inr u \<Rightarrow> bind (register n arg) (\<lambda>b. ret ()) s)"

definition create_task ::
  "nat \<Rightarrow> (string \<Rightarrow> string) \<Rightarrow> func \<Rightarrow> pyval list \<Rightarrow> pyval option \<Rightarrow> string option \<Rightarrow> addr action" where
  "create_task n sha fn args dflt label s =
     (case Task_init n sha fn args dflt label s of
        (Inl e, s1) \<Rightarrow> (Inl e, s1)
      | (Inr task, s1) \<Rightarrow>
          (case tasks s1 (hashid (heap s1 ! task)) of
             Some known \<Rightarrow> (Inr known, tape_append known s1)
           | None \<Rightarrow>
               (case for_each (task_args (variant (heap s1 ! task))) (check_arg n)
                       (tape_append task s1) of
                  (Inl e, s2) \<Rightarrow> (Inl e, s2)
                | (Inr u, s2) \<Rightarrow>
                    (case register n task s2 of
                       (Inl e, s3) \<Rightarrow> (Inl e, s3)
                     | (Inr b, s3) \<Rightarrow>
                         (Inr task, s3\<lparr>tasks := (tasks s3)(hashid (heap s3 ! task) \<mapsto> task)\<rparr>)))))"

subsection \<open>Session.record\<close>

text \<open>
  The context manager \<open>record\<close> around a block. The block is any action; whether it
  returns or raises, the \<open>finally\<close> clause runs on the state it left and the outcome of
  the block is passed on.
\<close>

definition Session_record :: "nat \<Rightarrow> 'a action \<Rightarrow> 'a action" where
  "Session_record tape block s =
     (case block (s\<lparr>task_tape := Some tape\<rparr>) of
        (r, s') \<Rightarrow> (r, s'\<lparr>task_tape := None\<rparr>))"

subsection \<open>Session.run_task and Session.eval\<close>

text \<open>
  The body of a rule is Python code that gets the values of the arguments, may call
  further rules (which reach create_task of the active session) and subscript the tasks
  it gets back, and returns a value. The table \<open>rules\<close> gives for each function that
  body as an action on the state.
\<close>

type_synonym rules = "func \<Rightarrow> pyval list \<Rightarrow> pyval action"

text \<open>\<open>[arg.result(task._default) for arg in task.args]\<close>\<close>

definition arg_results :: "nat \<Rightarrow> state \<Rightarrow> addr \<Rightarrow> error + pyval list" where
  "arg_results n s task =
     sequence (map (\<lambda>arg. Future_result n s arg (task_default (variant (heap s ! task))))
                 (task_args (variant (heap s ! task))))"

text \<open>
  run_task returns the raw result of the rule when the task is no longer ready, and
  None otherwise; the first is \<open>Some\<close> here. A future is true in \<open>if fut:\<close>, so that
  test is the test for None.
\<close>

definition run_task ::
  "nat \<Rightarrow> (string \<Rightarrow> string) \<Rightarrow> rules \<Rightarrow> addr \<Rightarrow> bool \<Rightarrow> pyval option action" where
  "run_task n sha rules task allow_unfinished s =
     (if Future_done (heap s ! task) then (Inl AssertionError, s)
      else if \<not> allow_unfinished \<and> \<not> Future_ready (heap s ! task) then (Inl AssertionError, s)
      else
        (case arg_results n s task of
           Inl e \<Rightarrow> (Inl e, s)
         | Inr args \<Rightarrow>
             (case rules (task_func (variant (heap s ! task))) args s of
                (Inl e, s1) \<Rightarrow> (Inl e, s1)
              | (Inr res, s1) \<Rightarrow>
                  if \<not> Future_ready (heap s1 ! task) then (Inr (Some res), s1)
                  else
                    (case (case res of
                             PFut r \<Rightarrow> (Inr (Some r), s1)
                           | _ \<Rightarrow>
                               (case Template_from_object n sha res s1 of
                                  (Inl e, s2) \<Rightarrow> (Inl e, s2)
                                | (Inr template, s2) \<Rightarrow>
                                    if Template_has_futures (heap s2 ! template)
                                    then (Inr (Some template), s2) else (Inr None, s2))) of
                       (Inl e, s2) \<Rightarrow> (Inl e, s2)
                     | (Inr (Some r), s2) \<Rightarrow>
                         if Future_done (heap s2 ! r) then (Inl AssertionError, s2)
                         else
                           (case add_done_callback r (SetTaskResult task)
                                   (set_future_result task r s2) of
                              (Inl e, s3) \<Rightarrow> (Inl e, s3)
                            | (Inr u, s3) \<Rightarrow>
                                (case register n r s3 of
                                   (Inl e, s4) \<Rightarrow> (Inl e, s4)
                                 | (Inr b, s4) \<Rightarrow> (Inr None, s4)))
                     | (Inr None, s2) \<Rightarrow>
                         (case set_result n task res s2 of
                            (Inl e, s3) \<Rightarrow> (Inl e, s3)
                          | (Inr u, s3) \<Rightarrow> (Inr None, s3))))))"

text \<open>
  \<open>for task in extract_tasks(fut): if not task.has_run(): task.add_ready_callback(schedule)\<close>,
  which Session.eval does for the root and again for the chained future of a task.
\<close>

definition schedule_tasks :: "nat \<Rightarrow> addr \<Rightarrow> unit action" where
  "schedule_tasks n f s =
     (case extract_tasks n s f of
        Inl e \<Rightarrow> (Inl e, s)
      | Inr ts \<Rightarrow>
          for_each ts (\<lambda>task s'. if \<not> Task_has_run (heap s' ! task)
                                 then add_ready_callback n task Schedule s'
                                 else (Inr (), s')) s)"

text \<open>The loop \<open>while queue:\<close> of Session.eval; its rounds are counted down from \<open>n\<close>.\<close>

fun eval_loop :: "nat \<Rightarrow> nat \<Rightarrow> (string \<Rightarrow> string) \<Rightarrow> rules \<Rightarrow> unit action" where
  "eval_loop 0 n sha rules s = (if queue s = [] then (Inr (), s) else (Inl OutOfFuel, s))"
| "eval_loop (Suc k) n sha rules s =
     (case queue s of
        [] \<Rightarrow> (Inr (), s)
      | task # q \<Rightarrow>
          (let s0 = s\<lparr>queue := q\<rparr>
           in if Task_has_run (heap s0 ! task) then (Inl AssertionError, s0)
              else
                (case Session_record (task_children (variant (heap s0 ! task)))
                        (run_task n sha rules task False) s0 of
                   (Inl e, s1) \<Rightarrow> (Inl e, s1)
                 | (Inr r, s1) \<Rightarrow>
                     if \<not> Future_done (heap s1 ! task) then
                       (case Task_future_result task s1 of
                          (Inl e, s2) \<Rightarrow> (Inl e, s2)
                        | (Inr task_fut, s2) \<Rightarrow>
                            (case schedule_tasks n task_fut s2 of
                               (Inl e, s3) \<Rightarrow> (Inl e, s3)
                             | (Inr u, s3) \<Rightarrow> eval_loop k n sha rules s3))
                     else eval_loop k n sha rules s1)))"

definition Session_eval :: "nat \<Rightarrow> (string \<Rightarrow> string) \<Rightarrow> rules \<Rightarrow> pyval \<Rightarrow> pyval action" where
  "Session_eval n sha rules obj s =
     (case (case obj of
              PFut a \<Rightarrow> (Inr (Some a), s)
            | _ \<Rightarrow>
                (case Template_from_object n sha obj s of
                   (Inl e, s1) \<Rightarrow> (Inl e, s1)
                 | (Inr template, s1) \<Rightarrow>
                     if \<not> Template_has_futures (heap s1 ! template) then (Inr None, s1)
                     else (Inr (Some template), s1))) of
        (Inl e, s1) \<Rightarrow> (Inl e, s1)
      | (Inr None, s1) \<Rightarrow> (Inr obj, s1)
      | (Inr (Some f), s1) \<Rightarrow>
          (case register n f s1 of
             (Inl e, s2) \<Rightarrow> (Inl e, s2)
           | (Inr b, s2) \<Rightarrow>
               (case schedule_tasks n f (s2\<lparr>queue := []\<rparr>) of
                  (Inl e, s3) \<Rightarrow> (Inl e, s3)
                | (Inr u, s3) \<Rightarrow>
                    (case eval_loop n n sha rules s3 of
                       (Inl e, s4) \<Rightarrow> (Inl e, s4)
                     | (Inr u', s4) \<Rightarrow>
                         (case Future_result n s4 f None of
                            Inl e \<Rightarrow> (Inl e, s4)
                          | Inr v \<Rightarrow> (Inr v, s4))))))"

subsection \<open>Notions used in the properties\<close>

text \<open>The property \<open>spec\<close> of the three classes.\<close>

definition spec_of :: "state \<Rightarrow> addr \<Rightarrow> string" where
  "spec_of s a =
     (case variant (heap s ! a) of
        Template js fs h \<Rightarrow> js
      | Indexor t ks h \<Rightarrow> h
      | Task fn args h ch fr d l \<Rightarrow> Task_spec s fn args)"

text \<open>
  A reference in Python always points to an object: every handle inside a value is an
  address below the size \<open>n\<close> of the heap.
\<close>

fun refs_ok :: "nat \<Rightarrow> pyval \<Rightarrow> bool" where
  "refs_ok n (PFut a) = (a < n)"
| "refs_ok n (PList xs) = list_all (refs_ok n) xs"
| "refs_ok n (PTuple xs) = list_all (refs_ok n) xs"
| "refs_ok n (PDict kvs) = list_all (\<lambda>(k, v). refs_ok n v) kvs"
| "refs_ok n v = True"

definition is_Template :: "future \<Rightarrow> bool" where
  "is_Template f = (case variant f of Template js fs h \<Rightarrow> True | _ \<Rightarrow> False)"

text \<open>
  What Task.__init__ makes of an argument \<open>arg\<close> given in state \<open>s\<close>: a future is kept;
  another value becomes a new Template object \<open>a\<close> whose text is the canonical JSON of
  the value and whose hashid is the hash of that text after the two braces.
\<close>

definition promoted :: "(string \<Rightarrow> string) \<Rightarrow> state \<Rightarrow> state \<Rightarrow> pyval \<Rightarrow> addr \<Rightarrow> bool" where
  "promoted sha s s' arg a =
     (case arg of
        PFut b \<Rightarrow> a = b
      | _ \<Rightarrow>
          (case to_json s arg of
             Inl e \<Rightarrow> False
           | Inr (j, tape) \<Rightarrow>
               is_Template (heap s' ! a) \<and> length (heap s) \<le> a
               \<and> jsonstr (variant (heap s' ! a)) = dumps j
               \<and> hashid (heap s' ! a) = ''{}'' @ hash_text sha (dumps j)))"

text \<open>A session that holds one registered task without arguments, under the hashid h0.\<close>

definition s_one :: state where
  "s_one =
     \<lparr>heap = [\<lparr>pending = [], children = [], result = None, done_callbacks = [],
               ready_callbacks = [], registered = True,
               variant = Task (''m'', ''g'') [] ''h0'' 0 None None None\<rparr>],
      lists = [[]], tasks = [''h0'' \<mapsto> 0], task_tape = None, queue = []\<rparr>"

text \<open>
  Whitespace in a JSON text is insignificant where it stands outside the string
  literals. \<open>no_insignificant_ws False text\<close>: the text, read from outside a literal,
  has none.
\<close>

fun no_insignificant_ws :: "bool \<Rightarrow> string \<Rightarrow> bool" where
  "no_insignificant_ws in_string [] = True"
| "no_insignificant_ws False (c # cs) =
     (\<not> is_ws c \<and> no_insignificant_ws (c = CHR 0x22) cs)"
| "no_insignificant_ws True (c # cs) =
     (if c = CHR 0x5C then (case cs of [] \<Rightarrow> True | e # r \<Rightarrow> no_insignificant_ws True r)
      else no_insignificant_ws (c \<noteq> CHR 0x22) cs)"

text \<open>
  The layout that json.dumps gives with its default separators, as an automaton over the
  characters: outside the string literals a comma or a colon is followed by exactly one
  space, which is followed by the first character of a value or key, and there is no
  other whitespace; so the text neither starts nor ends with whitespace.
\<close>

datatype lex = Outside | AfterSeparator | AfterSpace | InString | Escaped | Misplaced

fun lex_step :: "lex \<Rightarrow> char \<Rightarrow> lex" where
  "lex_step Outside c =
     (if c = CHR 0x22 then InString
      else if c = CHR '','' \<or> c = CHR '':'' then AfterSeparator
      else if is_ws c then Misplaced
      else Outside)"
| "lex_step AfterSeparator c = (if c = CHR '' '' then AfterSpace else Misplaced)"
| "lex_step AfterSpace c =
     (if c = CHR 0x22 then InString
      else if c = CHR '','' \<or> c = CHR '':'' \<or> is_ws c then Misplaced
      else Outside)"
| "lex_step InString c =
     (if c = CHR 0x5C then Escaped else if c = CHR 0x22 then Outside else InString)"
| "lex_step Escaped c = InString"
| "lex_step Misplaced c = Misplaced"

definition default_separators :: "string \<Rightarrow> bool" where
  "default_separators text = (foldl lex_step Outside text = Outside)"

text \<open>The members of every object of the document are listed in ascending order of their keys.\<close>

fun keys_sorted :: "json \<Rightarrow> bool" where
  "keys_sorted (JArr xs) = list_all keys_sorted xs"
| "keys_sorted (JObj kvs) = (sorted (map fst kvs) \<and> list_all (\<lambda>(k, v). keys_sorted v) kvs)"
| "keys_sorted j = True"

text \<open>A piece of text that the automaton reads from the start of an item to the end of one.\<close>
definition lex_item :: "string \<Rightarrow> bool" where
  "lex_item x = (foldl lex_step Outside x = Outside \<and> foldl lex_step AfterSpace x = Outside)"

text \<open>
  The hashid that an argument of a rule call has once Task.__init__ has taken it: that
  of the future itself, or that of the Template of the value. And the hashid of the task
  of a function and arguments with given hashids.
\<close>

definition arg_hashid :: "(string \<Rightarrow> string) \<Rightarrow> state \<Rightarrow> pyval \<Rightarrow> Hash" where
  "arg_hashid sha s arg =
     (case arg of
        PFut a \<Rightarrow> hashid (heap s ! a)
      | _ \<Rightarrow> (case to_json s arg of
                Inl e \<Rightarrow> []
              | Inr (j, tape) \<Rightarrow> ''{}'' @ hash_text sha (dumps j)))"

definition task_hash :: "(string \<Rightarrow> string) \<Rightarrow> func \<Rightarrow> Hash list \<Rightarrow> Hash" where
  "task_hash sha fn hs = hash_text sha (dumps (JArr (map JStr (get_fullname fn # hs))))"

text \<open>
  What the operations that only wire futures (register, add_child) leave as it is: the
  session, the lists, the queue, and the class and fields of every object.
\<close>

definition wired :: "state \<Rightarrow> state \<Rightarrow> bool" where
  "wired s s' =
     (lists s' = lists s \<and> tasks s' = tasks s \<and> task_tape s' = task_tape s \<and> queue s' = queue s
      \<and> map variant (heap s') = map variant (heap s))"

text \<open>
  A state with one task object that is in no session table, and a tape set: the list 1.
\<close>

definition s_stray :: state where
  "s_stray =
     \<lparr>heap = [\<lparr>pending = [], children = [], result = None, done_callbacks = [],
               ready_callbacks = [], registered = False,
               variant = Task (''m'', ''g'') [] ''h0'' 0 None None None\<rparr>],
      lists = [[], []], tasks = Map.empty, task_tape = Some 1, queue = []\<rparr>"

text \<open>
  A future \<open>f\<close> that has been created with the pending set \<open>ps\<close>, not empty, and on which
  register() has not been called: it is not registered, its pending set is \<open>ps\<close>, it has
  no result, and it is in no set of children (only register() calls add_child).
\<close>

definition unwired :: "addr \<Rightarrow> addr list \<Rightarrow> state \<Rightarrow> bool" where
  "unwired f ps s =
     (f < length (heap s) \<and> \<not> registered (heap s ! f) \<and> pending (heap s ! f) = ps \<and> ps \<noteq> []
      \<and> list_all (\<lambda>p. p < length (heap s)) ps
      \<and> result (heap s ! f) = None
      \<and> list_all (\<lambda>x. f \<notin> set (children x)) (heap s))"

definition unwired_or_registered :: "addr \<Rightarrow> addr list \<Rightarrow> state \<Rightarrow> bool" where
  "unwired_or_registered f ps s =
     (unwired f ps s \<or> f < length (heap s) \<and> registered (heap s ! f))"

text \<open>
  \<open>kept True\<close>: the future is registered. \<open>kept False\<close>: it is as it was made, or it
  has been registered since.
\<close>

definition kept :: "bool \<Rightarrow> addr \<Rightarrow> addr list \<Rightarrow> state \<Rightarrow> bool" where
  "kept b f ps s =
     (if b then f < length (heap s) \<and> registered (heap s ! f) else unwired_or_registered f ps s)"





section \<open>Properties\<close>


subsection \<open>The observable state of a future\<close>

lemma State_DONE_is_State_READY: "State_DONE = State_READY"
  by (simp add: State_DONE_def State_READY_def enum_member_def State_body_def)

lemma State_members:
  "State_UNREGISTERED = (''UNREGISTERED'', -1)"
  "State_PENDING = (''PENDING'', 0)"
  "State_READY = (''READY'', 1)"
  "State_RUNNING = (''RUNNING'', 2)"
  "State_HAS_RUN = (''HAS_RUN'', 3)"
  "State_DONE = (''READY'', 1)"
  by (simp_all add: State_UNREGISTERED_def State_PENDING_def State_READY_def
      State_RUNNING_def State_HAS_RUN_def State_DONE_def enum_member_def State_body_def)

lemma Future_state_done: "Future_done f \<Longrightarrow> Future_state f = State_READY"
  by (simp add: Future_state_def State_DONE_is_State_READY)

lemma Task_state_done: "Future_done f \<Longrightarrow> Task_state f = State_HAS_RUN"
  by (simp add: Task_state_def Future_state_done Task_has_run_def)

text \<open>
  C6. The claim: the state of a future is one of five distinct values, and a done future
  reports DONE, which differs from READY. In the source DONE and READY both carry the
  value 1, so \<open>State.DONE\<close> is the member READY. Evaluated here: the name DONE denotes
  the member READY; an Indexor whose result is set reports the member READY, the same as
  one that is ready and has no result; a task whose result is set reports HAS_RUN.
\<close>

theorem C6_done_future_reports_READY:
  "State_DONE = (''READY'', 1)
   \<and> State_DONE = State_READY
   \<and> state_of \<lparr>pending = [], children = [], result = Some (PInt 7), done_callbacks = [],
        ready_callbacks = [], registered = True, variant = Indexor 0 [KInt 0] ''@h/0''\<rparr>
     = state_of \<lparr>pending = [], children = [], result = None, done_callbacks = [],
        ready_callbacks = [], registered = True, variant = Indexor 0 [KInt 0] ''@h/0''\<rparr>
   \<and> state_of \<lparr>pending = [], children = [], result = Some (PInt 7), done_callbacks = [],
        ready_callbacks = [], registered = True,
        variant = Task (''m'', ''f'') [] ''h'' 0 None None None\<rparr> = (''HAS_RUN'', 3)"
  by (simp add: state_of_def Task_state_def Future_state_def Future_done_def Future_ready_def
      Task_has_run_def State_members)

subsection \<open>Session.record\<close>



subsection \<open>Frame lemmas for the constructors\<close>

lemma upd_simps [simp]:
  "lists (upd a g s) = lists s" "tasks (upd a g s) = tasks s"
  "task_tape (upd a g s) = task_tape s" "queue (upd a g s) = queue s"
  "length (heap (upd a g s)) = length (heap s)"
  by (simp_all add: upd_def)

lemma to_json_cong:
  assumes "\<And>a. a < n \<Longrightarrow> variant (heap s' ! a) = variant (heap s ! a)"
  shows "refs_ok n v \<Longrightarrow> to_json s' v = to_json s v"
proof (induction v)
  case (PList xs)
  then have h: "map (to_json s') xs = map (to_json s) xs"
    by (auto simp: list_all_iff)
  show ?case by (simp only: to_json.simps h)
next
  case (PTuple xs)
  then have h: "map (to_json s') xs = map (to_json s) xs"
    by (auto simp: list_all_iff)
  show ?case by (simp only: to_json.simps h)
next
  case (PDict kvs)
  then have "map (\<lambda>(k, v). case to_json s' v of Inl e \<Rightarrow> Inl e | Inr (j, t) \<Rightarrow> Inr (k, j, t)) kvs
           = map (\<lambda>(k, v). case to_json s v of Inl e \<Rightarrow> Inl e | Inr (j, t) \<Rightarrow> Inr (k, j, t)) kvs"
    by (fastforce simp: list_all_iff)
  then show ?case by (simp only: to_json.simps)
next
  case (PFut a)
  then show ?case using assms by simp
qed simp_all

lemma Template_init_new:
  assumes "Template_init n sha js futs s = (Inr a, s')"
  shows "a = length (heap s) \<and> length (heap s') = Suc (length (heap s))
    \<and> take (length (heap s)) (heap s') = heap s
    \<and> variant (heap s' ! a) = Template js (foldl (\<lambda>d b. dict_set d (hashid (heap s ! b)) b) [] futs) (''{}'' @ hash_text sha js)
    \<and> lists s' = lists s \<and> tasks s' = tasks s \<and> task_tape s' = task_tape s \<and> queue s' = queue s"
proof (cases n)
  case 0
  with assms show ?thesis
    by (auto simp: Template_init_def bind_def Future_init_def add_ready_callback_def ret_def
        upd_def Let_def split: if_splits prod.splits sum.splits)
next
  case (Suc m)
  show ?thesis
  proof (cases m)
    case 0
    with Suc assms show ?thesis
      by (auto simp: Template_init_def bind_def Future_init_def add_ready_callback_def ret_def
          upd_def Let_def split: if_splits prod.splits sum.splits)
  next
    case (Suc k)
    with \<open>n = Suc m\<close> assms show ?thesis
      by (auto simp: Template_init_def bind_def Future_init_def add_ready_callback_def ret_def
          upd_def Let_def Future_ready_def split: if_splits prod.splits sum.splits)
  qed
qed

lemma take_heap_nth: "take n xs' = xs \<Longrightarrow> a < length xs \<Longrightarrow> xs' ! a = xs ! a"
  by (metis nth_take length_take min_less_iff_conj)

lemma from_object_new:
  assumes "Template_from_object n sha obj s = (Inr a, s')"
  shows "a = length (heap s) \<and> length (heap s') = Suc (length (heap s))
    \<and> take (length (heap s)) (heap s') = heap s
    \<and> (\<exists>j tape. to_json s obj = Inr (j, tape) \<and> variant (heap s' ! a) =
          Template (dumps j) (foldl (\<lambda>d b. dict_set d (hashid (heap s ! b)) b) [] (foldl set_add [] tape))
            (''{}'' @ hash_text sha (dumps j)))
    \<and> lists s' = lists s \<and> tasks s' = tasks s \<and> task_tape s' = task_tape s \<and> queue s' = queue s"
  using assms
  by (auto simp: Template_from_object_def split: if_splits sum.splits dest!: Template_init_new)

lemma promoted_mono:
  assumes "promoted sha s s1 arg a" "take (length (heap s1)) (heap s') = heap s1"
    "a < length (heap s1)"
  shows "promoted sha s s' arg a"
  using assms take_heap_nth[OF assms(2), of a]
  by (auto simp: promoted_def split: pyval.splits sum.splits)

lemma promoted_cong:
  assumes "promoted sha s1 s' arg a" "take (length (heap s)) (heap s1) = heap s"
    "refs_ok (length (heap s)) arg" "length (heap s) \<le> length (heap s1)"
  shows "promoted sha s s' arg a"
proof -
  have "to_json s1 arg = to_json s arg"
    by (rule to_json_cong[where n = "length (heap s)"])
       (use assms in \<open>auto dest: take_heap_nth\<close>)
  then show ?thesis using assms by (auto simp: promoted_def split: pyval.splits sum.splits)
qed

lemma take_take_heap:
  "take n ys = xs \<Longrightarrow> take m zs = ys \<Longrightarrow> n \<le> m \<Longrightarrow> take n zs = xs"
  by (metis min.absorb_iff1 min.commute take_take)

lemma refs_ok_mono: "refs_ok n v \<Longrightarrow> n \<le> m \<Longrightarrow> refs_ok m v"
  by (induction v) (auto simp: list_all_iff)

lemma promote_ok:
  "promote n sha args s = (Inr as, s') \<Longrightarrow> list_all (refs_ok (length (heap s))) args \<Longrightarrow>
     length (heap s) \<le> length (heap s') \<and> take (length (heap s)) (heap s') = heap s
     \<and> list_all (\<lambda>a. a < length (heap s')) as
     \<and> list_all2 (promoted sha s s') args as
     \<and> lists s' = lists s \<and> tasks s' = tasks s \<and> task_tape s' = task_tape s \<and> queue s' = queue s"
proof (induction args arbitrary: s as)
  case Nil
  then show ?case by simp
next
  case (Cons arg args)
  from Cons.prems(1) obtain a s1 as' where
    hd: "(case arg of PFut a \<Rightarrow> (Inr a, s) | _ \<Rightarrow> Template_from_object n sha arg s) = (Inr a, s1)"
    and tl: "promote n sha args s1 = (Inr as', s')" and as: "as = a # as'"
    by (auto split: prod.splits sum.splits)
  from Cons.prems(2) have ok: "refs_ok (length (heap s)) arg"
    and oks: "list_all (refs_ok (length (heap s))) args" by simp_all
  have step: "length (heap s) \<le> length (heap s1) \<and> take (length (heap s)) (heap s1) = heap s
      \<and> a < length (heap s1) \<and> promoted sha s s1 arg a
      \<and> lists s1 = lists s \<and> tasks s1 = tasks s \<and> task_tape s1 = task_tape s \<and> queue s1 = queue s"
  proof (cases "is_future arg")
    case True
    then obtain b where "arg = PFut b" by (auto simp: is_future_def split: pyval.splits)
    with hd ok show ?thesis by (auto simp: promoted_def)
  next
    case False
    with hd have fo: "Template_from_object n sha arg s = (Inr a, s1)"
      by (auto simp: is_future_def split: pyval.splits)
    from from_object_new[OF fo] False show ?thesis
      by (auto simp: promoted_def is_Template_def hashid_def is_future_def split: pyval.splits)
  qed
  from oks step have oks1: "list_all (refs_ok (length (heap s1))) args"
    by (auto simp: list_all_iff intro: refs_ok_mono)
  note IH = Cons.IH[OF tl oks1]
  have p1: "promoted sha s s' arg a"
    using promoted_mono[of sha s s1 arg a s'] step IH by simp
  have p2: "list_all2 (promoted sha s s') args as'"
  proof (rule list_all2_all_nthI)
    from IH have "list_all2 (promoted sha s1 s') args as'" by simp
    then show "length args = length as'" by (rule list_all2_lengthD)
  next
    fix i assume i: "i < length args"
    from IH have "promoted sha s1 s' (args ! i) (as' ! i)"
      using i by (simp add: list_all2_nthD)
    moreover from oks i have "refs_ok (length (heap s)) (args ! i)"
      by (simp add: list_all_length)
    ultimately show "promoted sha s s' (args ! i) (as' ! i)"
      using promoted_cong[of sha s1 s' "args ! i" "as' ! i" s] step by simp
  qed
  have p3: "take (length (heap s)) (heap s') = heap s"
    using take_take_heap[of "length (heap s)" "heap s1" "heap s" "length (heap s1)" "heap s'"]
      step IH by simp
  have p4: "a < length (heap s')" using step IH by simp
  show ?case
    unfolding as using p1 p2 p3 p4 step IH by simp
qed

lemma Task_init_new:
  assumes "Task_init n sha fn args dflt label s = (Inr t, s')"
    and "list_all (refs_ok (length (heap s))) args"
  shows "\<exists>as s1. promote n sha args s = (Inr as, s1) \<and> t = length (heap s1)
     \<and> heap s' = heap s1 @ [\<lparr>pending = foldl set_add [] (filter (\<lambda>p. \<not> Future_done (heap s1 ! p)) as),
           children = [], result = None, done_callbacks = [], ready_callbacks = [],
           registered = False,
           variant = Task fn as (hash_text sha (Task_spec s1 fn as)) (length (lists s1)) None dflt label\<rparr>]
     \<and> lists s' = lists s1 @ [[]] \<and> tasks s' = tasks s1 \<and> task_tape s' = task_tape s1
     \<and> queue s' = queue s1"
  using assms
  by (auto simp: Task_init_def Future_init_def split: prod.splits sum.splits)

lemma Task_spec_cong:
  assumes "list_all (\<lambda>a. hashid (heap s' ! a) = hashid (heap s ! a)) as"
  shows "Task_spec s' fn as = Task_spec s fn as"
proof -
  have "map (\<lambda>b. hashid (heap s' ! b)) as = map (\<lambda>b. hashid (heap s ! b)) as"
    using assms by (simp add: list_all_iff)
  then show ?thesis by (simp only: Task_spec_def)
qed

subsection \<open>Task.spec and Task.hashid\<close>

lemma Task_init_spec:
  assumes "Task_init n sha fn args dflt label s = (Inr t, s')"
    and "list_all (refs_ok (length (heap s))) args"
  shows "is_Task (heap s' ! t)
     \<and> task_func (variant (heap s' ! t)) = fn
     \<and> list_all2 (promoted sha s s') args (task_args (variant (heap s' ! t)))
     \<and> spec_of s' t = dumps (JArr (map JStr
          (get_fullname fn # map (\<lambda>a. hashid (heap s' ! a)) (task_args (variant (heap s' ! t))))))
     \<and> hashid (heap s' ! t) = hash_text sha (spec_of s' t)"
proof -
  from Task_init_new[OF assms] obtain as s1 f where
    pr: "promote n sha args s = (Inr as, s1)" and t: "t = length (heap s1)"
    and hp: "heap s' = heap s1 @ [f]"
    and f: "variant f = Task fn as (hash_text sha (Task_spec s1 fn as)) (length (lists s1)) None dflt label"
    by fastforce
  note po = promote_ok[OF pr assms(2)]
  have var: "variant (heap s' ! t) = Task fn as (hash_text sha (Task_spec s1 fn as)) (length (lists s1)) None dflt label"
    using t hp f by simp
  have tk: "take (length (heap s1)) (heap s') = heap s1" using hp by simp
  have same: "list_all (\<lambda>a. hashid (heap s' ! a) = hashid (heap s1 ! a)) as"
    using po hp by (auto simp: list_all_iff nth_append)
  have sp: "Task_spec s' fn as = Task_spec s1 fn as"
    by (rule Task_spec_cong[OF same])
  have pm: "list_all2 (promoted sha s s') args as"
  proof (rule list_all2_all_nthI)
    from po have "list_all2 (promoted sha s s1) args as" by simp
    then show "length args = length as" by (rule list_all2_lengthD)
  next
    fix i assume i: "i < length args"
    from po have l2: "list_all2 (promoted sha s s1) args as" by simp
    have "promoted sha s s1 (args ! i) (as ! i)" using l2 i by (simp add: list_all2_nthD)
    moreover have "as ! i < length (heap s1)"
      using po i list_all2_lengthD[OF l2] by (simp add: list_all_length)
    ultimately show "promoted sha s s' (args ! i) (as ! i)"
      using promoted_mono[of sha s s1 "args ! i" "as ! i" s'] tk by simp
  qed
  show ?thesis
    using var sp pm by (simp add: is_Task_def spec_of_def hashid_def Task_spec_def)
qed

text \<open>
  C1. A task made by Task.__init__ from a function and arguments (every handle among the
  arguments pointing into the heap) has that function, has as \<open>_args\<close> the arguments with
  every value that is no future replaced by a new Template of it, has for \<open>spec\<close> the JSON
  text of the list of the function's full name and the hashids of these arguments, and
  has for \<open>hashid\<close> the hash of \<open>spec\<close>.
\<close>

theorem C1_task_spec_and_hashid:
  assumes "Task_init n sha fn args dflt label s = (Inr t, s')"
    and "list_all (refs_ok (length (heap s))) args"
  shows "is_Task (heap s' ! t)
     \<and> task_func (variant (heap s' ! t)) = fn
     \<and> list_all2 (promoted sha s s') args (task_args (variant (heap s' ! t)))
     \<and> spec_of s' t = dumps (JArr (map JStr
          (get_fullname fn # map (\<lambda>a. hashid (heap s' ! a)) (task_args (variant (heap s' ! t))))))
     \<and> hashid (heap s' ! t) = hash_text sha (spec_of s' t)"
  using Task_init_spec[OF assms] .

theorem C1_task_spec_and_hashid_witness:
  "fst (Task_init 3 (\<lambda>b. b) (''m'', ''f'') [PFut 0, PTuple [PInt 1]] None None s_one) = Inr 2
   \<and> list_all (refs_ok (length (heap s_one))) [PFut 0, PTuple [PInt 1]]
   \<and> spec_of (snd (Task_init 3 (\<lambda>b. b) (''m'', ''f'') [PFut 0, PTuple [PInt 1]] None None s_one)) 2
       = dumps (JArr [JStr ''m:f'', JStr ''h0'', JStr ''{}[1]''])
   \<and> hashid (heap (snd (Task_init 3 (\<lambda>b. b) (''m'', ''f'') [PFut 0, PTuple [PInt 1]] None None s_one)) ! 2)
       = hash_text (\<lambda>b. b)
           (spec_of (snd (Task_init 3 (\<lambda>b. b) (''m'', ''f'') [PFut 0, PTuple [PInt 1]] None None s_one)) 2)"
proof -
  have r: "fst (Task_init 3 (\<lambda>b. b) (''m'', ''f'') [PFut 0, PTuple [PInt 1]] None None s_one) = Inr 2"
    by code_simp
  have e: "Task_init 3 (\<lambda>b. b) (''m'', ''f'') [PFut 0, PTuple [PInt 1]] None None s_one
      = (Inr 2, snd (Task_init 3 (\<lambda>b. b) (''m'', ''f'') [PFut 0, PTuple [PInt 1]] None None s_one))"
    using r by (metis prod.collapse)
  have h: "list_all (refs_ok (length (heap s_one))) [PFut 0, PTuple [PInt 1]]"
    by (simp add: s_one_def)
  have v: "spec_of (snd (Task_init 3 (\<lambda>b. b) (''m'', ''f'') [PFut 0, PTuple [PInt 1]] None None s_one)) 2
       = dumps (JArr [JStr ''m:f'', JStr ''h0'', JStr ''{}[1]''])"
    by code_simp
  have c: "hashid (heap (snd (Task_init 3 (\<lambda>b. b) (''m'', ''f'') [PFut 0, PTuple [PInt 1]] None None s_one)) ! 2)
       = hash_text (\<lambda>b. b)
           (spec_of (snd (Task_init 3 (\<lambda>b. b) (''m'', ''f'') [PFut 0, PTuple [PInt 1]] None None s_one)) 2)"
    using C1_task_spec_and_hashid[OF e h] by blast
  show ?thesis using r h v c by blast
qed

subsection \<open>The layout of the hashed JSON texts\<close>

lemma char_of_eq_nat: "(char_of (n::nat) = c) = (n mod 256 = of_char c)"
  by (simp add: char_of_eq_iff take_bit_eq_mod)

lemma Misplaced_stays: "foldl lex_step Misplaced cs = Misplaced"
  by (induction cs) simp_all

lemma lex_itemI:
  "x = c # cs \<Longrightarrow> c \<noteq> CHR '','' \<Longrightarrow> c \<noteq> CHR '':'' \<Longrightarrow>
   foldl lex_step Outside x = Outside \<Longrightarrow> lex_item x"
  by (auto simp: lex_item_def Misplaced_stays split: if_splits)

lemma hex_char_lex: "d < 16 \<Longrightarrow> lex_step InString (hex_char d) = InString"
  by (simp add: hex_char_def char_of_eq_nat)

lemma escape_char_lex: "foldl lex_step InString (escape_char c) = InString"
proof -
  have d: "(of_char c :: nat) div 16 < 16"
    by (rule less_mult_imp_div_less) simp
  have m: "(of_char c :: nat) mod 16 < 16" by simp
  show ?thesis
    using hex_char_lex[OF d] hex_char_lex[OF m] by (simp add: escape_char_def)
qed

lemma escaped_lex: "foldl lex_step InString (concat (map escape_char cs)) = InString"
  by (induction cs) (simp_all add: escape_char_lex)

lemma string_lex: "lex_item (encode_basestring_ascii cs)"
  by (simp add: lex_item_def encode_basestring_ascii_def escaped_lex is_ws_def)

lemma digit_lex:
  "d < 10 \<Longrightarrow> lex_step Outside (digit_char d) = Outside
     \<and> digit_char d \<noteq> CHR '','' \<and> digit_char d \<noteq> CHR '':''"
  by (simp add: digit_char_def is_ws_def char_of_eq_nat)

lemma str_nat_lex: "foldl lex_step Outside (str_nat n) = Outside"
proof (induction n rule: str_nat.induct)
  case (1 n)
  show ?case
  proof (cases "n < 10")
    case True
    then show ?thesis by (subst str_nat.simps) (simp add: digit_lex del: lex_step.simps)
  next
    case False
    have "n mod 10 < 10" by simp
    with False 1 show ?thesis by (subst str_nat.simps) (simp add: digit_lex del: lex_step.simps)
  qed
qed

lemma str_nat_hd: "\<exists>c cs. str_nat n = c # cs \<and> c \<noteq> CHR '','' \<and> c \<noteq> CHR '':''"
proof (induction n rule: str_nat.induct)
  case (1 n)
  show ?case
  proof (cases "n < 10")
    case True
    then show ?thesis by (subst str_nat.simps) (simp add: digit_lex)
  next
    case False
    with 1 obtain c cs where "str_nat (n div 10) = c # cs" "c \<noteq> CHR '',''" "c \<noteq> CHR '':''" by auto
    with False show ?thesis by (subst str_nat.simps) simp
  qed
qed

lemma str_int_lex: "lex_item (str_int i)"
proof -
  obtain c cs where "str_nat (nat i) = c # cs" "c \<noteq> CHR '',''" "c \<noteq> CHR '':''"
    using str_nat_hd by blast
  then have p: "lex_item (str_nat (nat i))"
    using str_nat_lex[of "nat i"] by (blast intro: lex_itemI)
  have n: "lex_item (CHR ''-'' # str_nat (nat (- i)))"
    using str_nat_lex[of "nat (- i)"] by (simp add: lex_item_def is_ws_def)
  show ?thesis using p n by (simp add: str_int_def)
qed

lemma join_lex:
  "list_all lex_item xs \<Longrightarrow> xs \<noteq> [] \<Longrightarrow> lex_item (join '', '' xs)"
proof (induction "'', ''" xs rule: join.induct)
  case (3 x y ys)
  then have "lex_item x" "lex_item (join '', '' (y # ys))" by simp_all
  then show ?case by (simp add: lex_item_def)
qed simp_all

lemma dumps_lex: "lex_item (dumps j)"
proof (induction j)
  case (JArr xs)
  then have a: "list_all lex_item (map dumps xs)"
    by (simp add: list_all_iff)
  show ?case
  proof (cases "xs = []")
    case True
    then show ?thesis by (simp add: lex_item_def is_ws_def)
  next
    case False
    with join_lex[OF a] have "lex_item (join '', '' (map dumps xs))" by simp
    then show ?thesis by (simp add: lex_item_def is_ws_def)
  qed
next
  case (JObj kvs)
  have m: "lex_item (encode_basestring_ascii k @ '': '' @ dumps v)" if "(k, v) \<in> set kvs" for k v
  proof -
    from JObj that have "lex_item (dumps v)" by (auto simp: snds.simps)
    with string_lex[of k] show ?thesis by (simp add: lex_item_def)
  qed
  then have a: "list_all lex_item (map (\<lambda>(k, v). encode_basestring_ascii k @ '': '' @ dumps v) kvs)"
    by (auto simp: list_all_iff)
  show ?case
  proof (cases "kvs = []")
    case True
    then show ?thesis by (simp add: lex_item_def is_ws_def)
  next
    case False
    with join_lex[OF a] have "lex_item (join '', '' (map (\<lambda>(k, v). encode_basestring_ascii k @ '': '' @ dumps v) kvs))" by simp
    then show ?thesis by (simp add: lex_item_def is_ws_def)
  qed
qed (simp_all add: str_int_lex string_lex, simp_all add: lex_item_def is_ws_def)

lemma dumps_default_separators: "default_separators (dumps j)"
  using dumps_lex[of j] by (simp add: default_separators_def lex_item_def)

lemma sequence_map_Inr:
  "sequence (map f xs) = Inr rs \<Longrightarrow> list_all2 (\<lambda>x r. f x = Inr r) xs rs"
proof (induction xs arbitrary: rs)
  case Nil
  then show ?case by simp
next
  case (Cons x xs)
  then obtain r where r: "f x = Inr r" by (cases "f x") simp_all
  with Cons.prems obtain rs' where rs': "sequence (map f xs) = Inr rs'" "rs = r # rs'"
    by (cases "sequence (map f xs)") simp_all
  with Cons.IH[of rs'] r show ?case by simp
qed

lemma sequence_map_set:
  assumes "sequence (map f xs) = Inr rs" "r \<in> set rs"
  shows "\<exists>x \<in> set xs. f x = Inr r"
proof -
  from assms(2) obtain i where i: "i < length rs" "rs ! i = r"
    by (auto simp: in_set_conv_nth)
  from sequence_map_Inr[OF assms(1)] have l: "list_all2 (\<lambda>x r. f x = Inr r) xs rs" .
  from list_all2_lengthD[OF l] list_all2_nthD2[OF l i(1)] i
  have "xs ! i \<in> set xs" "f (xs ! i) = Inr r" by simp_all
  then show ?thesis by blast
qed

lemma to_json_keys_sorted: "to_json s v = Inr (j, tape) \<Longrightarrow> keys_sorted j"
proof (induction v arbitrary: j tape)
  case (PList xs)
  from PList.prems obtain rs where rs: "sequence (map (to_json s) xs) = Inr rs"
    and j: "j = JArr (map fst rs)"
    by (cases "sequence (map (to_json s) xs)") simp_all
  have "keys_sorted (fst r)" if "r \<in> set rs" for r
  proof -
    from sequence_map_set[OF rs that] obtain x where "x \<in> set xs" "to_json s x = Inr r"
      by blast
    with PList.IH[of x "fst r" "snd r"] show ?thesis by simp
  qed
  with j show ?case by (simp add: list_all_iff)
next
  case (PTuple xs)
  from PTuple.prems obtain rs where rs: "sequence (map (to_json s) xs) = Inr rs"
    and j: "j = JArr (map fst rs)"
    by (cases "sequence (map (to_json s) xs)") simp_all
  have "keys_sorted (fst r)" if "r \<in> set rs" for r
  proof -
    from sequence_map_set[OF rs that] obtain x where "x \<in> set xs" "to_json s x = Inr r"
      by blast
    with PTuple.IH[of x "fst r" "snd r"] show ?thesis by simp
  qed
  with j show ?case by (simp add: list_all_iff)
next
  case (PDict kvs)
  define f :: "string \<times> pyval \<Rightarrow> error + string \<times> json \<times> addr list" where "f = (\<lambda>(k, v). case to_json s v of Inl e \<Rightarrow> Inl e | Inr (j, t) \<Rightarrow> Inr (k, j, t))"
  from PDict.prems obtain rs where rs: "sequence (map f kvs) = Inr rs"
    and j: "j = JObj (map (\<lambda>(k, j, t). (k, j)) (sort_key fst rs))"
    unfolding f_def by (cases "sequence (map (\<lambda>(k, v). case to_json s v of Inl e \<Rightarrow> Inl e | Inr (j, t) \<Rightarrow> Inr (k, j, t)) kvs)") simp_all
  have ks: "keys_sorted (fst (snd r))" if "r \<in> set rs" for r
  proof -
    from sequence_map_set[OF rs that] obtain kv where kv: "kv \<in> set kvs" "f kv = Inr r"
      by blast
    obtain k v where kv2: "kv = (k, v)" by (cases kv)
    from kv(2) kv2 obtain j' t' where jt: "to_json s v = Inr (j', t')" "r = (k, j', t')"
      unfolding f_def by (cases "to_json s v") auto
    from kv(1) kv2 have "v \<in> Basic_BNFs.snds (k, v)" "(k, v) \<in> set kvs" by (auto simp: snds.simps)
    with PDict.IH[of "(k, v)" v j' t'] jt show ?thesis by simp
  qed
  have "map fst (map (\<lambda>(k, j, t). (k, j)) (sort_key fst rs)) = map fst (sort_key fst rs)"
    by (simp add: case_prod_unfold comp_def)
  then have so: "sorted (map fst (map (\<lambda>(k, j, t). (k, j)) (sort_key fst rs)))"
    by (simp only: sorted_sort_key)
  have "list_all (\<lambda>(k, v). keys_sorted v) (map (\<lambda>(k, j, t). (k, j)) (sort_key fst rs))"
    using ks by (auto simp: list_all_iff)
  with so show ?case unfolding j by simp
next
  case (PFut a)
  then show ?case by (cases "variant (heap s ! a)") auto
qed auto

text \<open>
  C7, as stated: the hashed texts hold no insignificant whitespace. The spec of a task
  with one argument and the text of the template of the list \<open>[1, 2]\<close> both do: the
  space after the comma.
\<close>

theorem C7_space_after_separator:
  "\<not> no_insignificant_ws False
        (spec_of (snd (Task_init 3 (\<lambda>b. b) (''m'', ''f'') [PFut 0] None None s_one)) 1)
   \<and> \<not> no_insignificant_ws False
        (jsonstr (variant (heap (snd (Template_from_object 3 (\<lambda>b. b) (PList [PInt 1, PInt 2]) s_one)) ! 1)))"
  by code_simp

text \<open>
  C7, amended: the text of a template made by Template.from_object and the spec of a
  task are JSON documents whose objects list their keys in ascending order, written with
  the default separators of json.dumps: one space after every comma and colon between
  items, and no other whitespace outside the string literals, none at the start and none
  at the end. The hashid is the hash of exactly that text.
\<close>

theorem C7_sorted_keys_default_separators:
  "(Template_from_object n sha obj s = (Inr a, s') \<longrightarrow>
      (\<exists>j tape. to_json s obj = Inr (j, tape)
         \<and> jsonstr (variant (heap s' ! a)) = dumps j
         \<and> hashid (heap s' ! a) = ''{}'' @ hash_text sha (dumps j)
         \<and> keys_sorted j \<and> default_separators (dumps j)))
   \<and> (Task_init n sha fn args dflt label s = (Inr t, s'')
        \<and> list_all (refs_ok (length (heap s))) args \<longrightarrow>
      (\<exists>j. spec_of s'' t = dumps j
         \<and> hashid (heap s'' ! t) = hash_text sha (dumps j)
         \<and> keys_sorted j \<and> default_separators (dumps j)))"
proof (intro conjI impI)
  assume fo: "Template_from_object n sha obj s = (Inr a, s')"
  from from_object_new[OF fo] obtain j tape where
    j: "to_json s obj = Inr (j, tape)"
    and v: "variant (heap s' ! a) =
          Template (dumps j) (foldl (\<lambda>d b. dict_set d (hashid (heap s ! b)) b) [] (foldl set_add [] tape))
            (''{}'' @ hash_text sha (dumps j))"
    by blast
  from v have "jsonstr (variant (heap s' ! a)) = dumps j"
    "hashid (heap s' ! a) = ''{}'' @ hash_text sha (dumps j)"
    by (simp_all add: hashid_def)
  with j to_json_keys_sorted[OF j] dumps_default_separators[of j]
  show "\<exists>j tape. to_json s obj = Inr (j, tape)
         \<and> jsonstr (variant (heap s' ! a)) = dumps j
         \<and> hashid (heap s' ! a) = ''{}'' @ hash_text sha (dumps j)
         \<and> keys_sorted j \<and> default_separators (dumps j)"
    by blast
next
  assume "Task_init n sha fn args dflt label s = (Inr t, s'')
        \<and> list_all (refs_ok (length (heap s))) args"
  then have ti: "Task_init n sha fn args dflt label s = (Inr t, s'')"
    and ok: "list_all (refs_ok (length (heap s))) args" by simp_all
  define j where "j = JArr (map JStr
          (get_fullname fn # map (\<lambda>a. hashid (heap s'' ! a)) (task_args (variant (heap s'' ! t)))))"
  from Task_init_spec[OF ti ok] have "spec_of s'' t = dumps j"
    "hashid (heap s'' ! t) = hash_text sha (dumps j)"
    unfolding j_def by simp_all
  moreover have "keys_sorted j" unfolding j_def by (simp add: list_all_iff)
  ultimately show "\<exists>j. spec_of s'' t = dumps j
         \<and> hashid (heap s'' ! t) = hash_text sha (dumps j)
         \<and> keys_sorted j \<and> default_separators (dumps j)"
    using dumps_default_separators[of j] by blast
qed

theorem C7_sorted_keys_default_separators_witness:
  "fst (Template_from_object 3 (\<lambda>b. b) (PDict [(''b'', PInt 1), (''a'', PFut 0)]) s_one) = Inr 1
   \<and> fst (Task_init 3 (\<lambda>b. b) (''m'', ''f'') [PFut 0, PTuple [PInt 1]] None None s_one) = Inr 2
   \<and> list_all (refs_ok (length (heap s_one))) [PFut 0, PTuple [PInt 1]]
   \<and> (\<exists>j tape. to_json s_one (PDict [(''b'', PInt 1), (''a'', PFut 0)]) = Inr (j, tape)
         \<and> jsonstr (variant (heap (snd (Template_from_object 3 (\<lambda>b. b)
               (PDict [(''b'', PInt 1), (''a'', PFut 0)]) s_one)) ! 1)) = dumps j
         \<and> keys_sorted j \<and> default_separators (dumps j))
   \<and> (\<exists>j. spec_of (snd (Task_init 3 (\<lambda>b. b) (''m'', ''f'') [PFut 0, PTuple [PInt 1]] None None s_one)) 2
           = dumps j
         \<and> keys_sorted j \<and> default_separators (dumps j))"
proof -
  have r1: "fst (Template_from_object 3 (\<lambda>b. b) (PDict [(''b'', PInt 1), (''a'', PFut 0)]) s_one) = Inr 1"
    by code_simp
  have e1: "Template_from_object 3 (\<lambda>b. b) (PDict [(''b'', PInt 1), (''a'', PFut 0)]) s_one
      = (Inr 1, snd (Template_from_object 3 (\<lambda>b. b) (PDict [(''b'', PInt 1), (''a'', PFut 0)]) s_one))"
    using r1 by (metis prod.collapse)
  have r2: "fst (Task_init 3 (\<lambda>b. b) (''m'', ''f'') [PFut 0, PTuple [PInt 1]] None None s_one) = Inr 2"
    by code_simp
  have e2: "Task_init 3 (\<lambda>b. b) (''m'', ''f'') [PFut 0, PTuple [PInt 1]] None None s_one
      = (Inr 2, snd (Task_init 3 (\<lambda>b. b) (''m'', ''f'') [PFut 0, PTuple [PInt 1]] None None s_one))"
    using r2 by (metis prod.collapse)
  have h: "list_all (refs_ok (length (heap s_one))) [PFut 0, PTuple [PInt 1]]"
    by (simp add: s_one_def)
  note c = C7_sorted_keys_default_separators[of 3 "\<lambda>b. b" "PDict [(''b'', PInt 1), (''a'', PFut 0)]"
      s_one 1 "snd (Template_from_object 3 (\<lambda>b. b) (PDict [(''b'', PInt 1), (''a'', PFut 0)]) s_one)"
      "(''m'', ''f'')" "[PFut 0, PTuple [PInt 1]]" None None 2
      "snd (Task_init 3 (\<lambda>b. b) (''m'', ''f'') [PFut 0, PTuple [PInt 1]] None None s_one)"]
  from c e1 have a: "\<exists>j tape. to_json s_one (PDict [(''b'', PInt 1), (''a'', PFut 0)]) = Inr (j, tape)
         \<and> jsonstr (variant (heap (snd (Template_from_object 3 (\<lambda>b. b)
               (PDict [(''b'', PInt 1), (''a'', PFut 0)]) s_one)) ! 1)) = dumps j
         \<and> keys_sorted j \<and> default_separators (dumps j)"
    by blast
  from c e2 h have b: "\<exists>j. spec_of (snd (Task_init 3 (\<lambda>b. b) (''m'', ''f'') [PFut 0, PTuple [PInt 1]] None None s_one)) 2
           = dumps j
         \<and> keys_sorted j \<and> default_separators (dumps j)"
    by blast
  show ?thesis using r1 r2 h a b by blast
qed

subsection \<open>Session.create_task\<close>

lemma wired_refl [simp]: "wired s s" by (simp add: wired_def)

lemma wired_trans: "wired s s1 \<Longrightarrow> wired s1 s2 \<Longrightarrow> wired s s2"
  by (simp add: wired_def)

lemma wired_upd: "variant (g (heap s ! a)) = variant (heap s ! a) \<Longrightarrow> wired s (upd a g s)"
  by (simp add: wired_def upd_def map_update) (metis list_update_id map_update nth_map length_map)

lemma wired_add_child: "wired s (add_child p c s)"
  unfolding add_child_def by (rule wired_upd) simp

lemma wired_fold_add_child: "wired s (fold (\<lambda>p. add_child p a) ps s)"
proof (induction ps arbitrary: s)
  case Nil
  show ?case by simp
next
  case (Cons p ps)
  have "wired s (add_child p a s)" by (rule wired_add_child)
  with Cons[of "add_child p a s"] show ?case by (auto intro: wired_trans)
qed

lemma wired_Future_register: "Future_register a s = (r, s') \<Longrightarrow> wired s s'"
proof -
  assume a: "Future_register a s = (r, s')"
  have u: "wired s (upd a (\<lambda>f. f\<lparr>registered := True\<rparr>) s)" by (rule wired_upd) simp
  show ?thesis
  proof (cases "registered (heap s ! a)")
    case True
    with a show ?thesis by (simp add: Future_register_def)
  next
    case False
    with a have "s' = fold (\<lambda>p. add_child p a) (pending (heap s ! a)) (upd a (\<lambda>f. f\<lparr>registered := True\<rparr>) s)"
      by (simp add: Future_register_def)
    with u wired_fold_add_child show ?thesis by (blast intro: wired_trans)
  qed
qed

lemma wired_for_each:
  assumes "\<And>x s r s'. x \<in> set xs \<Longrightarrow> body x s = (r, s') \<Longrightarrow> wired s s'"
  shows "for_each xs body s = (r, s') \<Longrightarrow> wired s s'"
  using assms
proof (induction xs arbitrary: s)
  case Nil
  then show ?case by simp
next
  case (Cons x xs)
  obtain r1 s1 where b: "body x s = (r1, s1)" by (cases "body x s")
  with Cons.prems(2)[of x s r1 s1] have w1: "wired s s1" by simp
  show ?case
  proof (cases r1)
    case (Inl e)
    with b Cons.prems(1) w1 show ?thesis by simp
  next
    case (Inr u)
    with b Cons.prems(1) have "for_each xs body s1 = (r, s')" by simp
    then have "wired s1 s'"
    proof (rule Cons.IH)
      fix y s0 r0 s0' assume "y \<in> set xs" "body y s0 = (r0, s0')"
      then show "wired s0 s0'" using Cons.prems(2)[of y s0 r0 s0'] by simp
    qed
    with w1 show ?thesis by (rule wired_trans)
  qed
qed

lemma wired_register: "register n a s = (r, s') \<Longrightarrow> wired s s'"
proof (induction n arbitrary: a s r s')
  case 0
  then show ?case by simp
next
  case (Suc n)
  show ?case
  proof (cases "is_Template (heap s ! a)")
    case False
    with Suc.prems have "Future_register a s = (r, s')"
      by (auto simp: is_Template_def split: variant.splits)
    then show ?thesis by (rule wired_Future_register)
  next
    case True
    obtain r1 s1 where fr: "Future_register a s = (r1, s1)" by (cases "Future_register a s")
    then have w1: "wired s s1" by (rule wired_Future_register)
    show ?thesis
    proof (cases "r1 = Inr True")
      case False
      with True Suc.prems fr have "s' = s1"
        by (auto simp: is_Template_def split: variant.splits sum.splits bool.splits)
      with w1 show ?thesis by simp
    next
      case r1: True
      obtain r2 s2 where fe: "for_each (pending (heap s1 ! a)) (\<lambda>p. bind (register n p) (\<lambda>b. ret ())) s1 = (r2, s2)"
        by (cases "for_each (pending (heap s1 ! a)) (\<lambda>p. bind (register n p) (\<lambda>b. ret ())) s1")
      have "wired s1 s2"
      proof (rule wired_for_each[OF _ fe])
        fix x s0 r0 s0' assume "bind (register n x) (\<lambda>b. ret ()) s0 = (r0, s0')"
        then obtain rr where "register n x s0 = (rr, s0')"
          by (auto simp: bind_def ret_def split: prod.splits sum.splits)
        then show "wired s0 s0'" by (rule Suc.IH)
      qed
      moreover from True Suc.prems fr r1 fe have "s' = s2"
        by (auto simp: is_Template_def split: variant.splits sum.splits)
      ultimately show ?thesis using w1 by (auto intro: wired_trans)
    qed
  qed
qed

lemma wired_check_arg: "check_arg n arg s = (r, s') \<Longrightarrow> wired s s'"
  by (auto simp: check_arg_def bind_def ret_def split: if_splits sum.splits prod.splits
      dest: wired_register)

lemma wired_args: "for_each as (check_arg n) s = (r, s') \<Longrightarrow> wired s s'"
  by (rule wired_for_each[where body = "check_arg n" and xs = as]) (auto dest: wired_check_arg)

lemma promoted_hashid:
  assumes "promoted sha s s' arg a" "take (length (heap s)) (heap s') = heap s"
    "refs_ok (length (heap s)) arg"
  shows "hashid (heap s' ! a) = arg_hashid sha s arg"
proof (cases "is_future arg")
  case True
  then obtain b where b: "arg = PFut b" by (auto simp: is_future_def split: pyval.splits)
  with assms have "a = b" "b < length (heap s)" by (simp_all add: promoted_def)
  with take_heap_nth[OF assms(2), of b] b show ?thesis by (simp add: arg_hashid_def)
next
  case False
  with assms(1) show ?thesis
    by (auto simp: promoted_def arg_hashid_def is_future_def split: pyval.splits sum.splits)
qed

lemma Task_init_candidate:
  assumes "Task_init n sha fn args dflt label s = (Inr c, s1)"
    and "list_all (refs_ok (length (heap s))) args"
  shows "tasks s1 = tasks s \<and> task_tape s1 = task_tape s \<and> queue s1 = queue s
     \<and> lists s1 = lists s @ [[]]
     \<and> length (heap s) \<le> c \<and> length (heap s1) = Suc c
     \<and> take (length (heap s)) (heap s1) = heap s
     \<and> is_Task (heap s1 ! c)
     \<and> hashid (heap s1 ! c) = task_hash sha fn (map (arg_hashid sha s) args)"
proof -
  from Task_init_new[OF assms] obtain as s0 f where
    pr: "promote n sha args s = (Inr as, s0)" and c: "c = length (heap s0)"
    and hp: "heap s1 = heap s0 @ [f]"
    and f: "variant f = Task fn as (hash_text sha (Task_spec s0 fn as)) (length (lists s0)) None dflt label"
    and rest: "lists s1 = lists s0 @ [[]]" "tasks s1 = tasks s0" "task_tape s1 = task_tape s0"
      "queue s1 = queue s0"
    by fastforce
  note po = promote_ok[OF pr assms(2)]
  from po have l2: "list_all2 (promoted sha s s0) args as" by simp
  have "map (\<lambda>b. hashid (heap s0 ! b)) as = map (arg_hashid sha s) args"
  proof (rule nth_equalityI)
    show "length (map (\<lambda>b. hashid (heap s0 ! b)) as) = length (map (arg_hashid sha s) args)"
      using list_all2_lengthD[OF l2] by simp
  next
    fix i assume "i < length (map (\<lambda>b. hashid (heap s0 ! b)) as)"
    then have i: "i < length as" "i < length args" using list_all2_lengthD[OF l2] by simp_all
    have "promoted sha s s0 (args ! i) (as ! i)" using l2 i by (simp add: list_all2_nthD)
    moreover have "refs_ok (length (heap s)) (args ! i)" using assms(2) i by (simp add: list_all_length)
    ultimately have "hashid (heap s0 ! (as ! i)) = arg_hashid sha s (args ! i)"
      using promoted_hashid po by blast
    with i show "map (\<lambda>b. hashid (heap s0 ! b)) as ! i = map (arg_hashid sha s) args ! i" by simp
  qed
  then have h: "hash_text sha (Task_spec s0 fn as) = task_hash sha fn (map (arg_hashid sha s) args)"
    by (simp add: Task_spec_def task_hash_def)
  have v: "variant (heap s1 ! c) = Task fn as (hash_text sha (Task_spec s0 fn as)) (length (lists s0)) None dflt label"
    using c hp f by simp
  have tk: "take (length (heap s)) (heap s1) = heap s"
    using po hp by simp
  show ?thesis using po c hp rest h v tk by (simp add: is_Task_def hashid_def)
qed

lemma create_task_found:
  assumes "Task_init n sha fn args dflt label s = (Inr c, s1)"
    and "tasks s1 (hashid (heap s1 ! c)) = Some known"
  shows "create_task n sha fn args dflt label s = (Inr known, tape_append known s1)"
  using assms by (simp add: create_task_def)

lemma create_task_new:
  assumes "Task_init n sha fn args dflt label s = (Inr c, s1)"
    and "tasks s1 (hashid (heap s1 ! c)) = None"
  shows "create_task n sha fn args dflt label s =
     (case for_each (task_args (variant (heap s1 ! c))) (check_arg n) (tape_append c s1) of
        (Inl e, s2) \<Rightarrow> (Inl e, s2)
      | (Inr u, s2) \<Rightarrow>
          (case register n c s2 of
             (Inl e, s3) \<Rightarrow> (Inl e, s3)
           | (Inr b, s3) \<Rightarrow> (Inr c, s3\<lparr>tasks := (tasks s3)(hashid (heap s3 ! c) \<mapsto> c)\<rparr>)))"
  using assms by (simp add: create_task_def)

lemma create_task_init_error:
  assumes "Task_init n sha fn args dflt label s = (Inl e, s1)"
  shows "create_task n sha fn args dflt label s = (Inl e, s1)"
  using assms by (simp add: create_task_def)

lemma create_task_Inr:
  assumes "create_task n sha fn args dflt label s = (Inr t, s')"
    and "list_all (refs_ok (length (heap s))) args"
  shows "tasks s' (task_hash sha fn (map (arg_hashid sha s) args)) = Some t
     \<and> (tasks s (task_hash sha fn (map (arg_hashid sha s) args)) = Some t \<and> tasks s' = tasks s
        \<or> tasks s (task_hash sha fn (map (arg_hashid sha s) args)) = None \<and> length (heap s) \<le> t
           \<and> tasks s' = (tasks s)(task_hash sha fn (map (arg_hashid sha s) args) \<mapsto> t))"
proof -
  let ?h = "task_hash sha fn (map (arg_hashid sha s) args)"
  obtain r1 s1 where ti0: "Task_init n sha fn args dflt label s = (r1, s1)"
    by (cases "Task_init n sha fn args dflt label s")
  with assms(1) create_task_init_error[of n sha fn args dflt label s _ s1]
  obtain c where ti: "Task_init n sha fn args dflt label s = (Inr c, s1)"
    by (cases r1) auto
  note cand = Task_init_candidate[OF ti assms(2)]
  then have h: "hashid (heap s1 ! c) = ?h" and ts: "tasks s1 = tasks s" by simp_all
  show ?thesis
  proof (cases "tasks s ?h")
    case (Some known)
    with h ts have "tasks s1 (hashid (heap s1 ! c)) = Some known" by simp
    from create_task_found[OF ti this] assms(1) have "t = known" "s' = tape_append known s1"
      by simp_all
    then have "t = known" "tasks s' = tasks s" using ts
      by (simp_all add: tape_append_def split: option.splits)
    with Some show ?thesis by simp
  next
    case None
    with h ts have nf: "tasks s1 (hashid (heap s1 ! c)) = None" by simp
    note ct = create_task_new[OF ti nf]
    obtain r2 s2 where fe: "for_each (task_args (variant (heap s1 ! c))) (check_arg n) (tape_append c s1) = (r2, s2)"
      by (cases "for_each (task_args (variant (heap s1 ! c))) (check_arg n) (tape_append c s1)")
    obtain r3 s3 where rg: "register n c s2 = (r3, s3)" by (cases "register n c s2")
    from assms(1) ct fe have r2: "r2 = Inr ()" by (cases r2) auto
    from assms(1) ct fe r2 rg obtain b where r3: "r3 = Inr b" by (cases r3) auto
    from assms(1) ct fe r2 rg r3
    have s': "s' = s3\<lparr>tasks := (tasks s3)(hashid (heap s3 ! c) \<mapsto> c)\<rparr>" and tc: "t = c"
      by auto
    have w: "wired (tape_append c s1) s3"
      using wired_args[OF fe] wired_register[OF rg] by (rule wired_trans)
    have c: "c < length (heap s1)" using cand by simp
    have lt: "heap (tape_append c s1) = heap s1" "tasks (tape_append c s1) = tasks s1"
      by (simp_all add: tape_append_def split: option.splits)
    from w lt have mv: "map variant (heap s3) = map variant (heap s1)" and t3: "tasks s3 = tasks s1"
      by (simp_all add: wired_def)
    have "variant (heap s3 ! c) = variant (heap s1 ! c)"
      using c mv by (metis length_map nth_map)
    then have "hashid (heap s3 ! c) = ?h" using h by (simp add: hashid_def)
    with s' tc None cand t3 ts show ?thesis by simp
  qed
qed

lemma sequence_Inl: "sequence rs = Inl e \<Longrightarrow> Inl e \<in> set rs"
  by (induction rs rule: sequence.induct) (auto split: sum.splits)

lemma getitem_error: "getitem v k = Inl e \<Longrightarrow> e \<noteq> ArgNotInSession"
  by (cases "(v, k)" rule: getitem.cases)
     (auto simp: index_list_def split: if_splits sum.splits option.splits)

lemma from_json_error:
  assumes "\<And>k dec v e. (k, dec) \<in> set classes \<Longrightarrow> dec v = Inl e \<Longrightarrow> e \<noteq> ArgNotInSession"
  shows "from_json classes j = Inl e \<Longrightarrow> e \<noteq> ArgNotInSession"
proof (induction j arbitrary: e)
  case (JArr xs)
  then have "sequence (map (from_json classes) xs) = Inl e"
    by (cases "sequence (map (from_json classes) xs)") simp_all
  from sequence_Inl[OF this] obtain x where x: "x \<in> set xs" "Inl e = from_json classes x"
    by auto
  from JArr.IH[of x e] x show ?case by simp
next
  case (JObj kvs)
  define f :: "string \<times> json \<Rightarrow> error + string \<times> pyval"
    where "f = (\<lambda>(k, j). case from_json classes j of Inl e \<Rightarrow> Inl e | Inr v \<Rightarrow> Inr (k, v))"
  show ?case
  proof (cases "sequence (map f kvs)")
    case (Inl e')
    with JObj.prems have "e' = e" by (simp add: f_def)
    with sequence_Inl[OF Inl] obtain k j where kj: "(k, j) \<in> set kvs" "f (k, j) = Inl e" by auto
    then have "from_json classes j = Inl e" by (cases "from_json classes j") (simp_all add: f_def)
    moreover from kj have "j \<in> Basic_BNFs.snds (k, j)" by (simp add: snds.simps)
    ultimately show ?thesis using JObj.IH kj(1) by blast
  next
    case (Inr items)
    from JObj.prems Inr obtain k payload dec where "map_of classes k = Some dec" "dec payload = Inl e"
      by (auto simp: f_def Let_def split: list.splits option.splits)
    with assms[of k dec payload e] show ?thesis by (auto dest: map_of_SomeD)
  qed
qed simp_all

lemma result_error:
  "Future_result n s a dflt = Inl e \<Longrightarrow> e \<noteq> ArgNotInSession"
  "default_result n s a d = Inl e \<Longrightarrow> e \<noteq> ArgNotInSession"
  "Template_substitute n s a dflt = Inl e \<Longrightarrow> e \<noteq> ArgNotInSession"
proof (induction n s a dflt and n s a d and n s a dflt arbitrary: e and e and e
    rule: Future_result_default_result_Template_substitute.induct)
  case (1 n s a dflt)
  then show ?case by (auto split: option.splits)
next
  case (2 s a d)
  then show ?case by simp
next
  case (3 n s a d)
  then show ?case by (auto split: variant.splits option.splits)
next
  case (4 n s a dflt)
  show ?case
  proof (cases "loads (jsonstr (variant (heap s ! a)))")
    case None
    with 4 show ?thesis by simp
  next
    case (Some j)
    define decoder where "decoder = (\<lambda>dct.
                 case getitem dct (KStr ''hashid'') of
                   Inl e \<Rightarrow> Inl e
                 | Inr (PStr h) \<Rightarrow>
                     (case map_of (futures (variant (heap s ! a))) h of
                        None \<Rightarrow> Inl KeyError
                      | Some b \<Rightarrow> Future_result n s b dflt)
                 | Inr (PList xs) \<Rightarrow> Inl TypeError
                 | Inr (PDict d) \<Rightarrow> Inl TypeError
                 | Inr v \<Rightarrow> Inl KeyError)"
    have dec: "decoder v = Inl e' \<Longrightarrow> e' \<noteq> ArgNotInSession" for v e'
      unfolding decoder_def using "4.IH"[OF Some]
      by (auto split: sum.splits pyval.splits option.splits dest: getitem_error)
    from 4(2) Some have "from_json [(''Task'', decoder), (''Indexor'', decoder)] j = Inl e"
      by (simp add: decoder_def Let_def)
    then show ?thesis by (rule from_json_error[rotated]) (auto dest: dec)
  qed
qed

lemma for_each_error:
  assumes "\<And>x s e s'. x \<in> set xs \<Longrightarrow> body x s = (Inl e, s') \<Longrightarrow> P e"
  shows "for_each xs body s = (Inl e, s') \<Longrightarrow> P e"
  using assms
proof (induction xs arbitrary: s)
  case Nil
  then show ?case by simp
next
  case (Cons x xs)
  obtain r1 s1 where b: "body x s = (r1, s1)" by (cases "body x s")
  show ?case
  proof (cases r1)
    case (Inl e1)
    with b Cons.prems(1) have "e1 = e" "s1 = s'" by simp_all
    with b Inl Cons.prems(2)[of x s e s'] show ?thesis by simp
  next
    case (Inr u)
    with b Cons.prems(1) have "for_each xs body s1 = (Inl e, s')" by simp
    then show ?thesis
    proof (rule Cons.IH)
      fix y s0 e0 s0' assume "y \<in> set xs" "body y s0 = (Inl e0, s0')"
      then show "P e0" using Cons.prems(2)[of y s0 e0 s0'] by simp
    qed
  qed
qed

lemma walk_error: "walk v ks = Inl e \<Longrightarrow> e \<noteq> ArgNotInSession"
  by (induction ks arbitrary: v) (auto split: sum.splits dest: getitem_error)

lemma set_result_error:
  "set_result n a v s = (Inl e, s') \<Longrightarrow> e \<noteq> ArgNotInSession"
  "parent_done n c a s = (Inl e, s') \<Longrightarrow> e \<noteq> ArgNotInSession"
  "call n cb a s = (Inl e, s') \<Longrightarrow> e \<noteq> ArgNotInSession"
proof (induction n arbitrary: a v c cb s e s')
  case 0
  { case 1 then show ?case by simp }
  { case 2 then show ?case by simp }
  { case 3 then show ?case by simp }
next
  case (Suc n)
  { case 1
    let ?s0 = "upd a (\<lambda>f. f\<lparr>result := Some v\<rparr>) s"
    obtain r1 s1 where l1: "for_each (children (heap s ! a)) (\<lambda>c. parent_done n c a) ?s0 = (r1, s1)"
      by (cases "for_each (children (heap s ! a)) (\<lambda>c. parent_done n c a) ?s0")
    obtain r2 s2 where l2: "for_each (done_callbacks (heap s1 ! a)) (\<lambda>callback. call n callback a) s1 = (r2, s2)"
      by (cases "for_each (done_callbacks (heap s1 ! a)) (\<lambda>callback. call n callback a) s1")
    have e1: "r1 = Inl e1 \<Longrightarrow> e1 \<noteq> ArgNotInSession" for e1
      using for_each_error[where P = "\<lambda>e. e \<noteq> ArgNotInSession", of "children (heap s ! a)" "\<lambda>c. parent_done n c a" ?s0 e1 s1]
        l1 Suc(2) by blast
    have e2: "r2 = Inl e2 \<Longrightarrow> e2 \<noteq> ArgNotInSession" for e2
      using for_each_error[where P = "\<lambda>e. e \<noteq> ArgNotInSession", of "done_callbacks (heap s1 ! a)" "\<lambda>callback. call n callback a" s1 e2 s2]
        l2 Suc(3) by blast
    from 1 l1 l2 e1 e2 show ?case
      by (auto split: if_splits sum.splits variant.splits) }
  { case 2
    let ?s1 = "upd c (\<lambda>f. f\<lparr>pending := remove1 a (pending f)\<rparr>) s"
    have "for_each (ready_callbacks (heap ?s1 ! c)) (\<lambda>callback. call n callback c) ?s1 = (Inl e1, s1') \<Longrightarrow> e1 \<noteq> ArgNotInSession" for e1 s1'
      using for_each_error[where P = "\<lambda>e. e \<noteq> ArgNotInSession", of "ready_callbacks (heap ?s1 ! c)" "\<lambda>callback. call n callback c" ?s1 e1 s1']
        Suc(3) by blast
    with 2 show ?case by (auto simp: Let_def split: if_splits) }
  { case 3
    then show ?case
      using Suc(1) result_error
      by (cases cb) (auto simp: schedule_def Indexor_resolve_def
          simp del: Template_substitute.simps Future_result.simps
          dest: walk_error split: sum.splits if_splits) }
qed

lemma to_json_error: "to_json s v = Inl e \<Longrightarrow> e = TypeError"
proof (induction v arbitrary: e)
  case (PList xs)
  then have "sequence (map (to_json s) xs) = Inl e"
    by (cases "sequence (map (to_json s) xs)") simp_all
  from sequence_Inl[OF this] obtain x where "x \<in> set xs" "Inl e = to_json s x" by auto
  with PList.IH[of x e] show ?case by simp
next
  case (PTuple xs)
  then have "sequence (map (to_json s) xs) = Inl e"
    by (cases "sequence (map (to_json s) xs)") simp_all
  from sequence_Inl[OF this] obtain x where "x \<in> set xs" "Inl e = to_json s x" by auto
  with PTuple.IH[of x e] show ?case by simp
next
  case (PDict kvs)
  define f :: "string \<times> pyval \<Rightarrow> error + string \<times> json \<times> addr list"
    where "f = (\<lambda>(k, v). case to_json s v of Inl e \<Rightarrow> Inl e | Inr (j, t) \<Rightarrow> Inr (k, j, t))"
  from PDict.prems have "sequence (map f kvs) = Inl e"
    by (cases "sequence (map f kvs)") (simp_all add: f_def)
  from sequence_Inl[OF this] obtain k v where kv: "(k, v) \<in> set kvs" "f (k, v) = Inl e" by auto
  then have "to_json s v = Inl e" by (cases "to_json s v") (auto simp: f_def)
  moreover have "v \<in> Basic_BNFs.snds (k, v)" by (simp add: snds.simps)
  ultimately show ?case using PDict.IH kv(1) by blast
next
  case (PFut a)
  then show ?case by (cases "variant (heap s ! a)") simp_all
qed simp_all

lemma Template_init_error:
  "Template_init n sha js futs s = (Inl e, s') \<Longrightarrow> e \<noteq> ArgNotInSession"
  by (auto simp: Template_init_def bind_def Future_init_def add_ready_callback_def ret_def
      split: prod.splits sum.splits if_splits dest: set_result_error(3))

lemma from_object_error:
  "Template_from_object n sha obj s = (Inl e, s') \<Longrightarrow> e \<noteq> ArgNotInSession"
  by (auto simp: Template_from_object_def split: if_splits sum.splits
      dest: to_json_error Template_init_error)

lemma promote_error:
  "promote n sha args s = (Inl e, s') \<Longrightarrow> e \<noteq> ArgNotInSession"
proof (induction args arbitrary: s)
  case Nil
  then show ?case by simp
next
  case (Cons arg args)
  obtain r1 s1 where h: "(case arg of PFut a \<Rightarrow> (Inr a, s) | _ \<Rightarrow> Template_from_object n sha arg s) = (r1, s1)"
    by (cases "(case arg of PFut a \<Rightarrow> (Inr a, s) | _ \<Rightarrow> Template_from_object n sha arg s)")
  show ?case
  proof (cases r1)
    case (Inl e1)
    with h Cons.prems have e1: "e1 = e" by simp
    from h Inl have "Template_from_object n sha arg s = (Inl e1, s1)"
      by (cases arg) simp_all
    with e1 show ?thesis by (auto dest: from_object_error)
  next
    case (Inr a)
    with h Cons.prems have "promote n sha args s1 = (Inl e, s')"
      by (cases "promote n sha args s1") (auto split: sum.splits)
    then show ?thesis by (rule Cons.IH)
  qed
qed

lemma Task_init_error:
  "Task_init n sha fn args dflt label s = (Inl e, s') \<Longrightarrow> e \<noteq> ArgNotInSession"
  by (auto simp: Task_init_def Future_init_def split: prod.splits sum.splits dest: promote_error)

lemma register_error: "register n a s = (Inl e, s') \<Longrightarrow> e = OutOfFuel"
proof (induction n arbitrary: a s s' e)
  case 0
  then show ?case by simp
next
  case (Suc n)
  have fr: "Future_register b s0 \<noteq> (Inl e0, s0')" for b s0 e0 s0'
    by (simp add: Future_register_def)
  show ?case
  proof (cases "is_Template (heap s ! a)")
    case False
    with Suc.prems fr show ?thesis
      by (auto simp: is_Template_def split: variant.splits)
  next
    case True
    obtain r1 s1 where f1: "Future_register a s = (r1, s1)" by (cases "Future_register a s")
    with fr obtain b where r1: "r1 = Inr b" by (cases r1) auto
    show ?thesis
    proof (cases b)
      case False
      with True Suc.prems f1 r1 show ?thesis
        by (auto simp: is_Template_def split: variant.splits)
    next
      case b: True
      obtain r2 s2 where fe: "for_each (pending (heap s1 ! a)) (\<lambda>p. bind (register n p) (\<lambda>b. ret ())) s1 = (r2, s2)"
        by (cases "for_each (pending (heap s1 ! a)) (\<lambda>p. bind (register n p) (\<lambda>b. ret ())) s1")
      from True Suc.prems f1 r1 b fe have r2: "r2 = Inl e"
        by (auto simp: is_Template_def split: variant.splits sum.splits)
      show ?thesis
      proof (rule for_each_error[where P = "\<lambda>e. e = OutOfFuel", OF _ fe[unfolded r2]])
        fix x s0 e0 s0' assume "bind (register n x) (\<lambda>b. ret ()) s0 = (Inl e0, s0')"
        then have "register n x s0 = (Inl e0, s0')"
          by (auto simp: bind_def ret_def split: prod.splits sum.splits)
        then show "e0 = OutOfFuel" by (rule Suc.IH)
      qed
    qed
  qed
qed

lemma check_arg_ArgNotInSession:
  "check_arg n arg s = (Inl ArgNotInSession, s') \<Longrightarrow> s' = s"
  by (auto simp: check_arg_def bind_def ret_def split: if_splits sum.splits prod.splits
      dest: register_error)

text \<open>
  C2. A call of create_task returned the task \<open>t\<close>; the session kept its table entries
  since; a later call for the same function, with arguments whose hashids are pairwise
  those of the first call (the values and the keyword arguments may differ), returns.
  Then it returns the same object \<open>t\<close>, which is the one the table held under that hashid
  before the call, and it leaves the table as it was.
\<close>

theorem C2_same_task_object:
  assumes "create_task n sha fn args dflt label s = (Inr t, s1)"
    and "list_all (refs_ok (length (heap s))) args"
    and "tasks s1 \<subseteq>\<^sub>m tasks s2"
    and "create_task n' sha fn args' dflt' label' s2 = (Inr t', s3)"
    and "list_all (refs_ok (length (heap s2))) args'"
    and "map (arg_hashid sha s2) args' = map (arg_hashid sha s) args"
  shows "t' = t
     \<and> tasks s2 (task_hash sha fn (map (arg_hashid sha s2) args')) = Some t
     \<and> tasks s3 = tasks s2"
proof -
  let ?h = "task_hash sha fn (map (arg_hashid sha s) args)"
  from create_task_Inr[OF assms(1,2)] have "tasks s1 ?h = Some t" by simp
  with assms(3) have k: "tasks s2 ?h = Some t" by (auto simp: map_le_def dom_def)
  from create_task_Inr[OF assms(4,5)] assms(6) k show ?thesis by auto
qed

theorem C2_same_task_object_witness:
  "fst (create_task 3 (\<lambda>b. b) (''m'', ''f'') [PFut 0, PTuple [PInt 1]] None None s_one) = Inr 2
   \<and> list_all (refs_ok (length (heap s_one))) [PFut 0, PTuple [PInt 1]]
   \<and> tasks (snd (create_task 3 (\<lambda>b. b) (''m'', ''f'') [PFut 0, PTuple [PInt 1]] None None s_one)) \<subseteq>\<^sub>m tasks (snd (create_task 3 (\<lambda>b. b) (''m'', ''f'') [PFut 0, PTuple [PInt 1]] None None s_one))
   \<and> fst (create_task 3 (\<lambda>b. b) (''m'', ''f'') [PFut 0, PList [PInt 1]] None (Some ''again'') (snd (create_task 3 (\<lambda>b. b) (''m'', ''f'') [PFut 0, PTuple [PInt 1]] None None s_one))) = Inr 2
   \<and> list_all (refs_ok (length (heap (snd (create_task 3 (\<lambda>b. b) (''m'', ''f'') [PFut 0, PTuple [PInt 1]] None None s_one))))) [PFut 0, PList [PInt 1]]
   \<and> map (arg_hashid (\<lambda>b. b) (snd (create_task 3 (\<lambda>b. b) (''m'', ''f'') [PFut 0, PTuple [PInt 1]] None None s_one))) [PFut 0, PList [PInt 1]] = map (arg_hashid (\<lambda>b. b) s_one) [PFut 0, PTuple [PInt 1]]
   \<and> tasks (snd (create_task 3 (\<lambda>b. b) (''m'', ''f'') [PFut 0, PList [PInt 1]] None (Some ''again'') (snd (create_task 3 (\<lambda>b. b) (''m'', ''f'') [PFut 0, PTuple [PInt 1]] None None s_one)))) = tasks (snd (create_task 3 (\<lambda>b. b) (''m'', ''f'') [PFut 0, PTuple [PInt 1]] None None s_one))"
proof -
  have r1: "fst (create_task 3 (\<lambda>b. b) (''m'', ''f'') [PFut 0, PTuple [PInt 1]] None None s_one) = Inr 2" by code_simp
  have e1: "create_task 3 (\<lambda>b. b) (''m'', ''f'') [PFut 0, PTuple [PInt 1]] None None s_one = (Inr 2, (snd (create_task 3 (\<lambda>b. b) (''m'', ''f'') [PFut 0, PTuple [PInt 1]] None None s_one)))"
    using r1 by (metis prod.collapse)
  have h1: "list_all (refs_ok (length (heap s_one))) [PFut 0, PTuple [PInt 1]]"
    by (simp add: s_one_def)
  have le: "tasks (snd (create_task 3 (\<lambda>b. b) (''m'', ''f'') [PFut 0, PTuple [PInt 1]] None None s_one)) \<subseteq>\<^sub>m tasks (snd (create_task 3 (\<lambda>b. b) (''m'', ''f'') [PFut 0, PTuple [PInt 1]] None None s_one))" by simp
  have r2: "fst (create_task 3 (\<lambda>b. b) (''m'', ''f'') [PFut 0, PList [PInt 1]] None (Some ''again'') (snd (create_task 3 (\<lambda>b. b) (''m'', ''f'') [PFut 0, PTuple [PInt 1]] None None s_one))) = Inr 2" by code_simp
  have e2: "create_task 3 (\<lambda>b. b) (''m'', ''f'') [PFut 0, PList [PInt 1]] None (Some ''again'') (snd (create_task 3 (\<lambda>b. b) (''m'', ''f'') [PFut 0, PTuple [PInt 1]] None None s_one)) = (Inr 2, snd (create_task 3 (\<lambda>b. b) (''m'', ''f'') [PFut 0, PList [PInt 1]] None (Some ''again'') (snd (create_task 3 (\<lambda>b. b) (''m'', ''f'') [PFut 0, PTuple [PInt 1]] None None s_one))))"
    using r2 by (metis prod.collapse)
  have h2: "list_all (refs_ok (length (heap (snd (create_task 3 (\<lambda>b. b) (''m'', ''f'') [PFut 0, PTuple [PInt 1]] None None s_one))))) [PFut 0, PList [PInt 1]]"
    by code_simp
  have eq: "map (arg_hashid (\<lambda>b. b) (snd (create_task 3 (\<lambda>b. b) (''m'', ''f'') [PFut 0, PTuple [PInt 1]] None None s_one))) [PFut 0, PList [PInt 1]] = map (arg_hashid (\<lambda>b. b) s_one) [PFut 0, PTuple [PInt 1]]"
    by code_simp
  have c: "tasks (snd (create_task 3 (\<lambda>b. b) (''m'', ''f'') [PFut 0, PList [PInt 1]] None (Some ''again'') (snd (create_task 3 (\<lambda>b. b) (''m'', ''f'') [PFut 0, PTuple [PInt 1]] None None s_one)))) = tasks (snd (create_task 3 (\<lambda>b. b) (''m'', ''f'') [PFut 0, PTuple [PInt 1]] None None s_one))"
    using C2_same_task_object[OF e1 h1 le e2 h2 eq] by blast
  show ?thesis using r1 h1 le r2 h2 eq c by blast
qed

text \<open>
  C9. When create_task raises ArgNotInSession, the task table is the one before the call;
  the candidate is a new task object that is not in the table under its hashid; and the
  list that was the tape at the call has the candidate appended (with no tape set, no
  list has changed; the last list is the new, empty \<open>children\<close> of the candidate).
\<close>

theorem C9_table_unchanged_on_ArgNotInSession:
  assumes "create_task n sha fn args dflt label s = (Inl ArgNotInSession, s')"
    and "list_all (refs_ok (length (heap s))) args"
  shows "tasks s' = tasks s
     \<and> (\<exists>c. length (heap s) \<le> c \<and> c < length (heap s') \<and> is_Task (heap s' ! c)
          \<and> hashid (heap s' ! c) = task_hash sha fn (map (arg_hashid sha s) args)
          \<and> tasks s' (hashid (heap s' ! c)) = None
          \<and> lists s' = (case task_tape s of
                          None \<Rightarrow> lists s @ [[]]
                        | Some tp \<Rightarrow> (lists s @ [[]])[tp := (lists s @ [[]]) ! tp @ [c]]))"
proof -
  obtain r1 s1 where ti0: "Task_init n sha fn args dflt label s = (r1, s1)"
    by (cases "Task_init n sha fn args dflt label s")
  have "\<exists>c. r1 = Inr c"
  proof (cases r1)
    case (Inl e)
    with ti0 create_task_init_error[of n sha fn args dflt label s e s1] assms(1)
    have "e = ArgNotInSession" by simp
    with ti0 Inl Task_init_error show ?thesis by blast
  qed simp
  then obtain c where ti: "Task_init n sha fn args dflt label s = (Inr c, s1)"
    using ti0 by blast
  note cand = Task_init_candidate[OF ti assms(2)]
  have nf: "tasks s1 (hashid (heap s1 ! c)) = None"
  proof (cases "tasks s1 (hashid (heap s1 ! c))")
    case (Some known)
    from create_task_found[OF ti Some] assms(1) show ?thesis by simp
  qed simp
  note ct = create_task_new[OF ti nf]
  obtain r2 s2 where fe: "for_each (task_args (variant (heap s1 ! c))) (check_arg n) (tape_append c s1) = (r2, s2)"
    by (cases "for_each (task_args (variant (heap s1 ! c))) (check_arg n) (tape_append c s1)")
  have s': "s' = s2"
  proof (cases r2)
    case (Inl e)
    with ct fe assms(1) show ?thesis by simp
  next
    case (Inr u)
    obtain r3 s3 where rg: "register n c s2 = (r3, s3)" by (cases "register n c s2")
    show ?thesis
    proof (cases r3)
      case (Inl e)
      with ct fe Inr rg assms(1) have "e = ArgNotInSession" by simp
      with rg Inl register_error[of n c s2 e s3] show ?thesis by simp
    next
      case r3: (Inr b)
      with ct fe Inr rg assms(1) show ?thesis by simp
    qed
  qed
  from wired_args[OF fe] s' have w: "wired (tape_append c s1) s'" by simp
  have ta: "heap (tape_append c s1) = heap s1" "tasks (tape_append c s1) = tasks s1"
    "lists (tape_append c s1) = (case task_tape s of
                          None \<Rightarrow> lists s @ [[]]
                        | Some tp \<Rightarrow> (lists s @ [[]])[tp := (lists s @ [[]]) ! tp @ [c]])"
    using cand by (simp_all add: tape_append_def split: option.splits)
  from w ta have mv: "map variant (heap s') = map variant (heap s1)" and t': "tasks s' = tasks s1"
    and l': "lists s' = (case task_tape s of
                          None \<Rightarrow> lists s @ [[]]
                        | Some tp \<Rightarrow> (lists s @ [[]])[tp := (lists s @ [[]]) ! tp @ [c]])"
    by (simp_all add: wired_def)
  have c: "c < length (heap s1)" using cand by simp
  have len: "length (heap s') = length (heap s1)" using mv by (metis length_map)
  have v: "variant (heap s' ! c) = variant (heap s1 ! c)"
    using c mv by (metis length_map nth_map)
  then have "is_Task (heap s' ! c)" "hashid (heap s' ! c) = hashid (heap s1 ! c)"
    using cand by (simp_all add: is_Task_def hashid_def)
  with cand nf t' l' len c show ?thesis by auto
qed

theorem C9_table_unchanged_on_ArgNotInSession_witness:
  "fst (create_task 3 (\<lambda>b. b) (''m'', ''f'') [PFut 0, PInt 1] None None s_stray) = Inl ArgNotInSession
   \<and> list_all (refs_ok (length (heap s_stray))) [PFut 0, PInt 1]
   \<and> tasks (snd (create_task 3 (\<lambda>b. b) (''m'', ''f'') [PFut 0, PInt 1] None None s_stray)) = tasks s_stray
   \<and> lists (snd (create_task 3 (\<lambda>b. b) (''m'', ''f'') [PFut 0, PInt 1] None None s_stray)) = [[], [2], []]"
proof -
  have r: "fst (create_task 3 (\<lambda>b. b) (''m'', ''f'') [PFut 0, PInt 1] None None s_stray) = Inl ArgNotInSession" by code_simp
  have e: "create_task 3 (\<lambda>b. b) (''m'', ''f'') [PFut 0, PInt 1] None None s_stray = (Inl ArgNotInSession, snd (create_task 3 (\<lambda>b. b) (''m'', ''f'') [PFut 0, PInt 1] None None s_stray))"
    using r by (metis prod.collapse)
  have h: "list_all (refs_ok (length (heap s_stray))) [PFut 0, PInt 1]"
    by (simp add: s_stray_def)
  have l: "lists (snd (create_task 3 (\<lambda>b. b) (''m'', ''f'') [PFut 0, PInt 1] None None s_stray)) = [[], [2], []]" by code_simp
  have c: "tasks (snd (create_task 3 (\<lambda>b. b) (''m'', ''f'') [PFut 0, PInt 1] None None s_stray)) = tasks s_stray"
    using C9_table_unchanged_on_ArgNotInSession[OF e h] by blast
  show ?thesis using r h c l by blast
qed

subsection \<open>Futures that are never registered\<close>


lemma uor_session [simp]:
  "unwired_or_registered f ps (s\<lparr>queue := q\<rparr>) = unwired_or_registered f ps s"
  "unwired_or_registered f ps (s\<lparr>lists := l\<rparr>) = unwired_or_registered f ps s"
  "unwired_or_registered f ps (s\<lparr>tasks := t\<rparr>) = unwired_or_registered f ps s"
  "unwired_or_registered f ps (s\<lparr>task_tape := tp\<rparr>) = unwired_or_registered f ps s"
  by (simp_all add: unwired_or_registered_def unwired_def)




lemma kept_session [simp]:
  "kept b f ps (s\<lparr>queue := q\<rparr>) = kept b f ps s"
  "kept b f ps (s\<lparr>lists := l\<rparr>) = kept b f ps s"
  "kept b f ps (s\<lparr>tasks := t\<rparr>) = kept b f ps s"
  "kept b f ps (s\<lparr>task_tape := tp\<rparr>) = kept b f ps s"
  by (simp_all add: kept_def)
























end
